theory Spec2Isabelle
  imports Main "HOL-Library.Sublist"
begin

section \<open>Data model of \<open>internal/terminal/utils.go\<close>\<close>

text \<open>
  Go's \<open>int\<close> is modelled as \<open>int\<close>: every offset the parser computes lies between
  \<open>0\<close> and \<open>len(line) + 1\<close>, so no 64-bit arithmetic wraps. A Go \<open>string\<close> is a
  sequence of bytes, modelled as \<open>string\<close> (a list of 8-bit \<open>char\<close>).

  \<open>baseNode\<close> is the embedded struct \<open>{start, end int; value string}\<close>; the fields
  \<open>end\<close> and \<open>value\<close> are written \<open>end'\<close> and \<open>value'\<close>. \<open>Argument\<close> and \<open>Cmd\<close> embed
  a \<open>baseNode\<close> and nothing else; \<open>Flag\<close> adds \<open>Args\<close> and \<open>long\<close>.
\<close>

record baseNode =
  start :: int
  end' :: int
  value' :: string

type_synonym Argument = baseNode

type_synonym Cmd = baseNode

record Flag = baseNode +
  Args :: "Argument list"
  long :: bool

text \<open>The interface \<open>Node\<close>: a value of one of the three implementing types; the
  constructor is what \<open>Type()\<close> reports.\<close>

datatype Node = FlagNode Flag | ArgumentNode Argument | CmdNode Cmd

fun Type :: "Node \<Rightarrow> string" where
  "Type (FlagNode f) = ''flag''"
| "Type (ArgumentNode a) = ''argument''"
| "Type (CmdNode c) = ''command''"

text \<open>The methods \<open>Value\<close>, \<open>Start\<close> and \<open>End\<close> of the interface.\<close>

fun Value :: "Node \<Rightarrow> string" where
  "Value (FlagNode f) = value' f"
| "Value (ArgumentNode a) = value' a"
| "Value (CmdNode c) = value' c"

fun Start :: "Node \<Rightarrow> int" where
  "Start (FlagNode f) = start f"
| "Start (ArgumentNode a) = start a"
| "Start (CmdNode c) = start c"

fun End :: "Node \<Rightarrow> int" where
  "End (FlagNode f) = end' f"
| "End (ArgumentNode a) = end' a"
| "End (CmdNode c) = end' c"

text \<open>
  \<open>ParsedLine\<close>. \<open>Focus\<close> (an interface holding a pointer) and \<open>Section\<close> (a \<open>*Flag\<close>)
  are pointers in the source; the record is polymorphic in how they are represented:
  as references while \<open>ParseLine\<close> runs, as the values they point to in the result.
  \<open>None\<close> is \<open>nil\<close>. The map \<open>Flags\<close> is a partial function on flag names.
\<close>

record ('n, 's) ParsedLine =
  FlagsOrdered :: "Flag list"
  Flags :: "string \<rightharpoonup> Flag"
  Arguments :: "Argument list"
  Focus :: "'n option"
  Section :: "'s option"
  Command :: "Cmd option"
  RawLine :: string

definition ArgValues :: "Flag \<Rightarrow> string list" where
  "ArgValues f = map value' (Args f)"

definition ArgumentsAsStrings :: "('n, 's) ParsedLine \<Rightarrow> string list" where
  "ArgumentsAsStrings pl = map value' (Arguments pl)"

section \<open>The query API\<close>

text \<open>
  Errors are values: \<open>ErrFlagNotSet\<close> is the package's sentinel error, the two
  \<open>fmt.Errorf\<close> errors carry what their message is formatted from, and
  \<open>IndexOutOfRange\<close> is the run-time panic of an index expression.
\<close>

datatype error =
    ErrFlagNotSet
  | ErrExpectsArgs string int
  | ErrExpectsAtLeastOne string
  | IndexOutOfRange

definition IsSet :: "('n, 's) ParsedLine \<Rightarrow> string \<Rightarrow> bool" where
  "IsSet pl flag = (case Flags pl flag of Some f \<Rightarrow> True | None \<Rightarrow> False)"

definition ExpectArgs :: "('n, 's) ParsedLine \<Rightarrow> string \<Rightarrow> int \<Rightarrow> error + Argument list" where
  "ExpectArgs pl flag needs =
     (case Flags pl flag of
        Some f \<Rightarrow>
          if int (length (Args f)) \<noteq> needs then Inl (ErrExpectsArgs flag needs)
          else Inr (Args f)
      | None \<Rightarrow> Inl ErrFlagNotSet)"

definition GetArgs :: "('n, 's) ParsedLine \<Rightarrow> string \<Rightarrow> error + Argument list" where
  "GetArgs pl flag =
     (case Flags pl flag of Some f \<Rightarrow> Inr (Args f) | None \<Rightarrow> Inl ErrFlagNotSet)"

definition GetArgsString :: "('n, 's) ParsedLine \<Rightarrow> string \<Rightarrow> error + string list" where
  "GetArgsString pl flag =
     (case Flags pl flag of Some f \<Rightarrow> Inr (ArgValues f) | None \<Rightarrow> Inl ErrFlagNotSet)"

definition GetArg :: "('n, 's) ParsedLine \<Rightarrow> string \<Rightarrow> error + Argument" where
  "GetArg pl flag =
     (case ExpectArgs pl flag 1 of
        Inl err \<Rightarrow> Inl err
      | Inr arg \<Rightarrow> (case arg of [] \<Rightarrow> Inl IndexOutOfRange | a # _ \<Rightarrow> Inr a))"

definition GetArgString :: "('n, 's) ParsedLine \<Rightarrow> string \<Rightarrow> error + string" where
  "GetArgString pl flag =
     (case Flags pl flag of
        None \<Rightarrow> Inl ErrFlagNotSet
      | Some f \<Rightarrow>
          if length (Args f) = 0 then Inl (ErrExpectsAtLeastOne flag)
          else (case Args f of [] \<Rightarrow> Inl IndexOutOfRange | a # _ \<Rightarrow> Inr (value' a)))"

section \<open>The scanners\<close>

text \<open>
  \<open>line[i]\<close>: the byte at offset \<open>i\<close>; \<open>None\<close> is the run-time panic of an index out of
  range, which every function below passes on.
\<close>

definition byte_at :: "string \<Rightarrow> int \<Rightarrow> char option" where
  "byte_at line i = (if 0 \<le> i \<and> i < int (length line) then Some (line ! nat i) else None)"

text \<open>
  \<open>string(b)\<close> for a byte \<open>b\<close> is the UTF-8 encoding of the code point \<open>b\<close>: the byte
  itself below \<open>0x80\<close>, two bytes from \<open>0x80\<close> on.
\<close>

definition string_of_byte :: "char \<Rightarrow> string" where
  "string_of_byte b =
     (let n = (of_char b :: nat) in
      if n < 128 then [b]
      else [char_of (192 + n div 64), char_of (128 + n mod 64)])"

text \<open>
  \<open>parseFlag\<close>: the loop over \<open>f.end\<close>, with the named results \<open>f\<close> and \<open>endPos\<close> and
  the local \<open>linked\<close> as loop state.
\<close>

function parseFlag_loop ::
  "string \<Rightarrow> int \<Rightarrow> Flag \<Rightarrow> bool \<Rightarrow> int \<Rightarrow> (Flag \<times> int) option" where
  "parseFlag_loop line startPos f linked endPos =
     (if end' f < int (length line) then
        (case byte_at line (end' f) of
           None \<Rightarrow> None
         | Some c \<Rightarrow>
             if c = CHR '' '' then Some (f, end' f)
             else if c = CHR ''-'' \<and> linked then
               parseFlag_loop line startPos (f\<lparr>end' := end' f + 1\<rparr>) linked (end' f)
             else
               parseFlag_loop line startPos
                 (f\<lparr>long := (if end' f - startPos > 1 \<and> linked then True else long f),
                    value' := value' f @ string_of_byte c,
                    end' := end' f + 1\<rparr>)
                 False (end' f))
      else Some (f, endPos))"
  by pat_completeness auto
termination
  by (relation "measure (\<lambda>(line, startPos, f, linked, endPos). nat (int (length line) - end' f))")
     auto

declare parseFlag_loop.simps [simp del]

definition parseFlag :: "string \<Rightarrow> int \<Rightarrow> (Flag \<times> int) option" where
  "parseFlag line startPos =
     parseFlag_loop line startPos
       \<lparr>start = startPos, end' = startPos, value' = [], Args = [], long = False\<rparr> True 0"

text \<open>\<open>parseSingleArg\<close>, in the same way.\<close>

function parseSingleArg_loop ::
  "string \<Rightarrow> Argument \<Rightarrow> int \<Rightarrow> (Argument \<times> int) option" where
  "parseSingleArg_loop line arg endPos =
     (if end' arg < int (length line) then
        (case byte_at line (end' arg) of
           None \<Rightarrow> None
         | Some c \<Rightarrow>
             if c = CHR '' '' then Some (arg, end' arg)
             else
               parseSingleArg_loop line
                 (arg\<lparr>value' := value' arg @ string_of_byte c, end' := end' arg + 1\<rparr>)
                 (end' arg))
      else Some (arg, endPos))"
  by pat_completeness auto
termination
  by (relation "measure (\<lambda>(line, arg, endPos). nat (int (length line) - end' arg))") auto

declare parseSingleArg_loop.simps [simp del]

definition parseSingleArg :: "string \<Rightarrow> int \<Rightarrow> (Argument \<times> int) option" where
  "parseSingleArg line startPos =
     parseSingleArg_loop line \<lparr>start = startPos, end' = startPos, value' = []\<rparr> 0"

text \<open>
  What the two loops compute, in closed form. \<open>string_of_bytes\<close> is the value built by
  \<open>value += string(line[i])\<close> over a run of bytes; the token at an offset is the maximal
  run of non-space bytes from there.
\<close>

definition string_of_bytes :: "string \<Rightarrow> string" where
  "string_of_bytes bs = concat (map string_of_byte bs)"

definition token_at :: "string \<Rightarrow> int \<Rightarrow> string" where
  "token_at line p = takeWhile (\<lambda>c. c \<noteq> CHR '' '') (drop (nat p) line)"

lemma byte_at_in_range:
  "0 \<le> p \<Longrightarrow> p < int (length line) \<Longrightarrow> byte_at line p = Some (line ! nat p)"
  by (simp add: byte_at_def)

lemma drop_at_offset:
  assumes "0 \<le> p" and "p < int (length line)"
  shows "drop (nat p) line = line ! nat p # drop (nat (p + 1)) line"
proof -
  from assms have "nat p < length line" by linarith
  moreover from assms have "nat (p + 1) = Suc (nat p)" by linarith
  ultimately show ?thesis by (simp add: Cons_nth_drop_Suc)
qed

lemma token_at_outside: "int (length line) \<le> p \<Longrightarrow> token_at line p = []"
  by (simp add: token_at_def)

lemma token_at_space:
  "0 \<le> p \<Longrightarrow> p < int (length line) \<Longrightarrow> line ! nat p = CHR '' '' \<Longrightarrow> token_at line p = []"
  by (simp add: token_at_def drop_at_offset)

lemma token_at_step:
  "0 \<le> p \<Longrightarrow> p < int (length line) \<Longrightarrow> line ! nat p \<noteq> CHR '' '' \<Longrightarrow>
   token_at line p = line ! nat p # token_at line (p + 1)"
  by (simp add: token_at_def drop_at_offset)

lemma token_at_length: "0 \<le> p \<Longrightarrow> p + int (length (token_at line p)) \<le> max p (int (length line))"
proof -
  have "length (token_at line p) \<le> length (drop (nat p) line)"
    unfolding token_at_def by (rule length_takeWhile_le)
  then show ?thesis by simp
qed

lemma parseSingleArg_loop_eq:
  "0 \<le> end' arg \<Longrightarrow>
   parseSingleArg_loop line arg ep =
     Some (arg\<lparr>value' := value' arg @ string_of_bytes (token_at line (end' arg)),
               end' := end' arg + int (length (token_at line (end' arg)))\<rparr>,
           if end' arg + int (length (token_at line (end' arg))) < int (length line)
           then end' arg + int (length (token_at line (end' arg)))
           else if int (length line) \<le> end' arg then ep else int (length line) - 1)"
proof (induction line arg ep rule: parseSingleArg_loop.induct)
  case (1 line arg endPos)
  show ?case
  proof (cases "end' arg < int (length line)")
    case False
    then show ?thesis
      by (subst parseSingleArg_loop.simps) (simp add: string_of_bytes_def token_at_outside)
  next
    case True
    with 1(2) have b: "byte_at line (end' arg) = Some (line ! nat (end' arg))"
      by (simp add: byte_at_in_range)
    show ?thesis
    proof (cases "line ! nat (end' arg) = CHR '' ''")
      case sp: True
      then show ?thesis using True b 1(2)
        by (subst parseSingleArg_loop.simps) (simp add: string_of_bytes_def token_at_space)
    next
      case nsp: False
      have "0 \<le> end' (arg\<lparr>value' := value' arg @ string_of_byte (line ! nat (end' arg)),
                          end' := end' arg + 1\<rparr>)"
        using 1(2) by simp
      note ih = 1(1)[OF True b nsp this]
      have len: "end' arg + 1 + int (length (token_at line (end' arg + 1))) \<le> int (length line)"
        using token_at_length[of "end' arg + 1" line] True 1(2) by simp
      show ?thesis using True b nsp 1(2) len
        by (subst parseSingleArg_loop.simps)
           (simp add: ih string_of_bytes_def token_at_step add.assoc)
    qed
  qed
qed

lemma parseSingleArg_eq:
  "0 \<le> p \<Longrightarrow> p < int (length line) \<Longrightarrow>
   parseSingleArg line p =
     Some (\<lparr>start = p, end' = p + int (length (token_at line p)),
            value' = string_of_bytes (token_at line p)\<rparr>,
           if p + int (length (token_at line p)) < int (length line)
           then p + int (length (token_at line p)) else int (length line) - 1)"
  by (simp add: parseSingleArg_def parseSingleArg_loop_eq)

lemma parseSingleArg_negative: "p < 0 \<Longrightarrow> parseSingleArg line p = None"
  by (simp add: parseSingleArg_def parseSingleArg_loop.simps byte_at_def)

lemma parseSingleArg_endPos:
  assumes "parseSingleArg line p = Some (arg, e)" and "p < int (length line)"
  shows "p \<le> e"
proof (cases "p < 0")
  case True
  with assms show ?thesis by (simp add: parseSingleArg_negative)
next
  case False
  with assms show ?thesis by (auto simp add: parseSingleArg_eq split: if_splits)
qed

text \<open>\<open>parseArgs\<close>: the loop over \<open>endPos\<close>, with \<open>args\<close> as loop state.\<close>

function parseArgs_loop ::
  "string \<Rightarrow> Argument list \<Rightarrow> int \<Rightarrow> (Argument list \<times> int) option" where
  "parseArgs_loop line args endPos =
     (if endPos < int (length line) then
        (case parseSingleArg line endPos of
           None \<Rightarrow> None
         | Some (arg, endPos') \<Rightarrow>
             if endPos' \<noteq> int (length line) - 1 then
               (case byte_at line (endPos' + 1) of
                  None \<Rightarrow> None
                | Some c \<Rightarrow>
                    if c = CHR ''-''
                    then Some (if length (value' arg) \<noteq> 0 then args @ [arg] else args, endPos')
                    else parseArgs_loop line
                           (if length (value' arg) \<noteq> 0 then args @ [arg] else args)
                           (endPos' + 1))
             else parseArgs_loop line
                    (if length (value' arg) \<noteq> 0 then args @ [arg] else args) (endPos' + 1))
      else Some (args, endPos))"
  by pat_completeness auto
termination
proof (relation "measure (\<lambda>(line, args, endPos). nat (int (length line) - endPos))")
  show "wf (measure (\<lambda>(line, args, endPos). nat (int (length line) - endPos)))"
    by simp
qed (auto dest: parseSingleArg_endPos)

declare parseArgs_loop.simps [simp del]

definition parseArgs :: "string \<Rightarrow> int \<Rightarrow> (Argument list \<times> int) option" where
  "parseArgs line startPos = parseArgs_loop line [] startPos"

lemma parseFlag_loop_eq:
  "0 \<le> end' f \<Longrightarrow>
   parseFlag_loop line sp f linked ep =
     Some (f\<lparr>long := (if linked \<and> dropWhile (\<lambda>c. c = CHR ''-'') (token_at line (end' f)) \<noteq> []
                        \<and> end' f + int (length (takeWhile (\<lambda>c. c = CHR ''-'') (token_at line (end' f)))) - sp > 1
                      then True else long f),
             value' := value' f @ string_of_bytes
                        (if linked then dropWhile (\<lambda>c. c = CHR ''-'') (token_at line (end' f))
                         else token_at line (end' f)),
             end' := end' f + int (length (token_at line (end' f)))\<rparr>,
           if end' f + int (length (token_at line (end' f))) < int (length line)
           then end' f + int (length (token_at line (end' f)))
           else if int (length line) \<le> end' f then ep else int (length line) - 1)"
proof (induction line sp f linked ep rule: parseFlag_loop.induct)
  case (1 line sp f linked endPos)
  show ?case
  proof (cases "end' f < int (length line)")
    case False
    then show ?thesis
      by (subst parseFlag_loop.simps) (simp add: string_of_bytes_def token_at_outside)
  next
    case True
    with 1(3) have b: "byte_at line (end' f) = Some (line ! nat (end' f))"
      by (simp add: byte_at_in_range)
    have len: "end' f + 1 + int (length (token_at line (end' f + 1))) \<le> int (length line)"
      using token_at_length[of "end' f + 1" line] True 1(3) by simp
    show ?thesis
    proof (cases "line ! nat (end' f) = CHR '' ''")
      case sp: True
      then show ?thesis using True b 1(3)
        by (subst parseFlag_loop.simps) (simp add: string_of_bytes_def token_at_space)
    next
      case nsp: False
      show ?thesis
      proof (cases "line ! nat (end' f) = CHR ''-'' \<and> linked")
        case dash: True
        have "0 \<le> end' (f\<lparr>end' := end' f + 1\<rparr>)" using 1(3) by simp
        note ih = 1(1)[OF True b nsp dash this]
        from dash have l: "linked = True" by simp
        show ?thesis using True b nsp dash 1(3) len
          by (subst parseFlag_loop.simps)
             (simp add: ih[unfolded l] string_of_bytes_def token_at_step add.assoc)
      next
        case nodash: False
        have "0 \<le> end' (f\<lparr>long := if 1 < end' f - sp \<and> linked then True else long f,
                            value' := value' f @ string_of_byte (line ! nat (end' f)),
                            end' := end' f + 1\<rparr>)"
          using 1(3) by simp
        note ih = 1(2)[OF True b nsp nodash this]
        show ?thesis using True b nsp nodash 1(3) len
          by (subst parseFlag_loop.simps)
             (auto simp add: ih string_of_bytes_def token_at_step add.assoc)
      qed
    qed
  qed
qed

lemma parseFlag_eq:
  "0 \<le> p \<Longrightarrow> p < int (length line) \<Longrightarrow>
   parseFlag line p =
     Some (\<lparr>start = p, end' = p + int (length (token_at line p)),
            value' = string_of_bytes (dropWhile (\<lambda>c. c = CHR ''-'') (token_at line p)),
            Args = [],
            long = (dropWhile (\<lambda>c. c = CHR ''-'') (token_at line p) \<noteq> []
                    \<and> 1 < length (takeWhile (\<lambda>c. c = CHR ''-'') (token_at line p)))\<rparr>,
           if p + int (length (token_at line p)) < int (length line)
           then p + int (length (token_at line p)) else int (length line) - 1)"
  by (simp add: parseFlag_def parseFlag_loop_eq)

lemma parseFlag_endPos:
  assumes "parseFlag line p = Some (f, e)" and "p < int (length line)"
  shows "p \<le> e"
proof (cases "p < 0")
  case True
  with assms show ?thesis
    by (simp add: parseFlag_def parseFlag_loop.simps byte_at_def)
next
  case False
  with assms show ?thesis by (auto simp add: parseFlag_eq split: if_splits)
qed

lemma parseArgs_loop_endPos:
  "parseArgs_loop line args p = Some (r, e) \<Longrightarrow> p \<le> e"
proof (induction line args p rule: parseArgs_loop.induct)
  case (1 line args endPos)
  show ?case
  proof (cases "endPos < int (length line)")
    case False
    with 1(3) show ?thesis by (simp add: parseArgs_loop.simps)
  next
    case True
    from 1(3) True obtain arg e' where s: "parseSingleArg line endPos = Some (arg, e')"
      by (subst (asm) parseArgs_loop.simps) (auto split: option.splits)
    from parseSingleArg_endPos[OF s True] have le: "endPos \<le> e'" .
    show ?thesis
    proof (cases "e' \<noteq> int (length line) - 1")
      case ne: True
      from 1(3) True s ne obtain c where c: "byte_at line (e' + 1) = Some c"
        by (subst (asm) parseArgs_loop.simps) (auto split: option.splits)
      show ?thesis
      proof (cases "c = CHR ''-''")
        case True
        with 1(3) \<open>endPos < int (length line)\<close> s ne c le show ?thesis
          by (subst (asm) parseArgs_loop.simps) simp
      next
        case False
        from 1(3) \<open>endPos < int (length line)\<close> s ne c False
        have "parseArgs_loop line (if length (value' arg) \<noteq> 0 then args @ [arg] else args) (e' + 1)
              = Some (r, e)"
          by (subst (asm) parseArgs_loop.simps) simp
        from 1(1)[OF True s refl ne c False this] le show ?thesis by simp
      qed
    next
      case eq: False
      from 1(3) True s eq
      have "parseArgs_loop line (if length (value' arg) \<noteq> 0 then args @ [arg] else args) (e' + 1)
            = Some (r, e)"
        by (subst (asm) parseArgs_loop.simps) simp
      from 1(2)[OF True s refl eq this] le show ?thesis by simp
    qed
  qed
qed

section \<open>The line parser\<close>

text \<open>
  \<open>for _, c := range s\<close> walks the UTF-8 code points of \<open>s\<close>; an invalid byte yields
  \<open>U+FFFD\<close> and advances one byte. \<open>rune_width s\<close> is the number of bytes of the
  well-formed code point \<open>s\<close> starts with (\<open>0\<close> when there is none), by the ranges of
  first and second bytes the decoder accepts: no overlong form, no surrogate, nothing
  above \<open>U+10FFFF\<close>. \<open>range_strings s\<close> lists \<open>string(c)\<close> for the code points \<open>c\<close> in
  turn: the encoding the decoder accepted is the only encoding of its code point, and
  \<open>string(U+FFFD)\<close> is \<open>EF BF BD\<close>.
\<close>

definition byte_in :: "nat \<Rightarrow> nat \<Rightarrow> char \<Rightarrow> bool" where
  "byte_in lo hi c = (lo \<le> of_char c \<and> (of_char c :: nat) \<le> hi)"

fun rune_width :: "string \<Rightarrow> nat" where
  "rune_width [] = 0"
| "rune_width (b0 # rest) =
     (let n = (of_char b0 :: nat) in
      if n < 0x80 then 1
      else if 0xC2 \<le> n \<and> n \<le> 0xDF then
        (case rest of
           b1 # _ \<Rightarrow> if byte_in 0x80 0xBF b1 then 2 else 0
         | _ \<Rightarrow> 0)
      else if 0xE0 \<le> n \<and> n \<le> 0xEF then
        (case rest of
           b1 # b2 # _ \<Rightarrow>
             if byte_in (if n = 0xE0 then 0xA0 else 0x80) (if n = 0xED then 0x9F else 0xBF) b1
                \<and> byte_in 0x80 0xBF b2
             then 3 else 0
         | _ \<Rightarrow> 0)
      else if 0xF0 \<le> n \<and> n \<le> 0xF4 then
        (case rest of
           b1 # b2 # b3 # _ \<Rightarrow>
             if byte_in (if n = 0xF0 then 0x90 else 0x80) (if n = 0xF4 then 0x8F else 0xBF) b1
                \<and> byte_in 0x80 0xBF b2 \<and> byte_in 0x80 0xBF b3
             then 4 else 0
         | _ \<Rightarrow> 0)
      else 0)"

function range_strings :: "string \<Rightarrow> string list" where
  "range_strings s =
     (if s = [] then []
      else if rune_width s = 0 then [CHR 0xEF, CHR 0xBF, CHR 0xBD] # range_strings (drop 1 s)
      else take (rune_width s) s # range_strings (drop (rune_width s) s))"
  by pat_completeness auto
termination
  by (relation "measure length") auto

declare range_strings.simps [simp del]

text \<open>
  Pointers. Each flag scan declares a fresh variable \<open>newFlag\<close>, and \<open>capture\<close>,
  \<open>pl.Focus\<close> and \<open>pl.Section\<close> may hold its address while \<open>capture.Args = args\<close>
  writes through it. The store \<open>vars\<close> holds these variables in the order they are
  declared, and the address of one is its index. \<open>pl.Section\<close> may also point at an
  element of \<open>pl.FlagsOrdered\<close>. \<open>pl.Focus\<close> is a \<open>*Flag\<close> (the address of a \<open>newFlag\<close>),
  a \<open>*Argument\<close> (into \<open>args\<close>) or the \<open>*Cmd\<close> \<open>pl.Command\<close>; arguments and the command
  are not written to after they are built, so these two are kept by value.
\<close>

datatype FlagRef = NewFlagVar nat | OrderedElem nat

datatype NodeRef = FlagPtr nat | ArgumentPtr Argument | CmdPtr Cmd

text \<open>The variables of \<open>ParseLine\<close>: the result \<open>pl\<close>, \<open>capture\<close> and the store.\<close>

record scan = "(NodeRef, FlagRef) ParsedLine" +
  vars :: "Flag list"
  capture :: "nat option"

definition within :: "int \<Rightarrow> 'a baseNode_scheme \<Rightarrow> bool" where
  "within cursorPosition n = (cursorPosition \<ge> start n \<and> cursorPosition \<le> end' n)"

text \<open>Lines 215-218 and 276-279: the capturing flag is copied into the map and the slice.\<close>

definition flushCapture :: "scan \<Rightarrow> scan" where
  "flushCapture st =
     (case capture st of
        None \<Rightarrow> st
      | Some p \<Rightarrow>
          st\<lparr>Flags := (Flags st)(value' (vars st ! p) \<mapsto> vars st ! p),
             FlagsOrdered := FlagsOrdered st @ [vars st ! p]\<rparr>)"

text \<open>Lines 243-252: one flag for each code point of a bundle.\<close>

definition addBundled :: "int \<Rightarrow> int \<Rightarrow> string \<Rightarrow> scan \<Rightarrow> scan" where
  "addBundled s e c st =
     st\<lparr>Flags := (Flags st)(c \<mapsto> \<lparr>start = s, end' = e, value' = c, Args = [], long = False\<rparr>),
        FlagsOrdered := FlagsOrdered st @ [\<lparr>start = s, end' = e, value' = c, Args = [], long = False\<rparr>]\<rparr>"

text \<open>Lines 214-254: the branch of the loop body taken at a \<open>-\<close>. It returns the new state
  and the new value of \<open>i\<close>.\<close>

definition flagBranch :: "string \<Rightarrow> int \<Rightarrow> scan \<Rightarrow> int \<Rightarrow> (scan \<times> int) option" where
  "flagBranch line cursorPosition st0 i0 =
     (let st = flushCapture st0 in
      case parseFlag line i0 of
        None \<Rightarrow> None
      | Some (newFlag, i) \<Rightarrow>
          let p = length (vars st);
              st = st\<lparr>vars := vars st @ [newFlag]\<rparr>;
              st = (if within cursorPosition newFlag
                    then st\<lparr>Focus := Some (FlagPtr p), Section := Some (NewFlagVar p)\<rparr>
                    else st)
          in if long newFlag then Some (st\<lparr>capture := Some p\<rparr>, i)
             else if length (value' newFlag) = 1 then Some (st\<lparr>capture := Some p\<rparr>, i)
             else Some (fold (addBundled (start newFlag) i) (range_strings (value' newFlag))
                          (st\<lparr>capture := None\<rparr>), i))"

text \<open>Lines 261-267: the last argument of the run that holds the cursor becomes the focus.\<close>

definition focusArg :: "int \<Rightarrow> Argument \<Rightarrow> scan \<Rightarrow> scan" where
  "focusArg cursorPosition arg st =
     (if within cursorPosition arg
      then st\<lparr>Focus := Some (ArgumentPtr arg), Section := map_option NewFlagVar (capture st)\<rparr>
      else st)"

text \<open>Lines 257-272: the other branch of the loop body.\<close>

definition argsBranch :: "string \<Rightarrow> int \<Rightarrow> scan \<Rightarrow> int \<Rightarrow> (scan \<times> int) option" where
  "argsBranch line cursorPosition st0 i0 =
     (case parseArgs line i0 of
        None \<Rightarrow> None
      | Some (args, i) \<Rightarrow>
          let st = st0\<lparr>Arguments := Arguments st0 @ args\<rparr>;
              st = fold (focusArg cursorPosition) args st
          in case capture st of
               Some p \<Rightarrow> Some (st\<lparr>vars := (vars st)[p := (vars st ! p)\<lparr>Args := args\<rparr>]\<rparr>, i)
             | None \<Rightarrow> Some (st, i))"

text \<open>
  Lines 213-273: the loop body. \<open>i < len(line) && line[i] == '-'\<close> reads \<open>line[i]\<close> only
  when \<open>i < len(line)\<close>.
\<close>

definition ParseLine_body :: "string \<Rightarrow> int \<Rightarrow> scan \<Rightarrow> int \<Rightarrow> (scan \<times> int) option" where
  "ParseLine_body line cursorPosition st i =
     (if i < int (length line) then
        (case byte_at line i of
           None \<Rightarrow> None
         | Some c \<Rightarrow>
             if c = CHR ''-'' then flagBranch line cursorPosition st i
             else argsBranch line cursorPosition st i)
      else argsBranch line cursorPosition st i)"

lemma ParseLine_body_advances:
  assumes "ParseLine_body line cursorPosition st i = Some (st', i')" and "i < int (length line)"
  shows "i \<le> i'"
  using assms
  by (auto simp add: ParseLine_body_def flagBranch_def argsBranch_def parseArgs_def Let_def
           split: option.splits if_splits dest: parseFlag_endPos parseArgs_loop_endPos)

text \<open>Lines 212-274: the loop \<open>for i := 0; i < len(line); i++\<close>.\<close>

function ParseLine_loop :: "string \<Rightarrow> int \<Rightarrow> scan \<Rightarrow> int \<Rightarrow> scan option" where
  "ParseLine_loop line cursorPosition st i =
     (if i < int (length line) then
        (case ParseLine_body line cursorPosition st i of
           None \<Rightarrow> None
         | Some (st', i') \<Rightarrow> ParseLine_loop line cursorPosition st' (i' + 1))
      else Some st)"
  by pat_completeness auto
termination
proof (relation "measure (\<lambda>(line, cursorPosition, st, i). nat (int (length line) - i))")
  show "wf (measure (\<lambda>(line, cursorPosition, st, i). nat (int (length line) - i)))"
    by simp
qed (auto dest: ParseLine_body_advances)

declare ParseLine_loop.simps [simp del]

text \<open>
  Lines 281-295: the walk over \<open>pl.FlagsOrdered\<close> from the last element down. It returns
  \<open>pl.Section\<close> and \<open>closestLeft\<close>. The index stays within the slice: it starts at
  \<open>len - 1\<close> and the loop ends below \<open>0\<close>.
\<close>

function sectionWalk ::
  "int \<Rightarrow> Flag list \<Rightarrow> int \<Rightarrow> FlagRef option \<Rightarrow> FlagRef option \<times> FlagRef option" where
  "sectionWalk cursorPosition fs i sec =
     (if i \<ge> 0 then
        if cursorPosition \<ge> start (fs ! nat i) \<and> cursorPosition \<le> end' (fs ! nat i)
        then (Some (OrderedElem (nat i)), None)
        else if end' (fs ! nat i) > cursorPosition
        then sectionWalk cursorPosition fs (i - 1) sec
        else (sec, Some (OrderedElem (nat i)))
      else (sec, None))"
  by pat_completeness auto
termination
  by (relation "measure (\<lambda>(cursorPosition, fs, i, sec). nat (i + 1))") auto

declare sectionWalk.simps [simp del]

text \<open>Lines 281-299: the walk, then \<open>closestLeft\<close> when \<open>pl.Section\<close> is still \<open>nil\<close>.\<close>

definition resolveSection :: "int \<Rightarrow> scan \<Rightarrow> scan" where
  "resolveSection cursorPosition st =
     (case sectionWalk cursorPosition (FlagsOrdered st) (int (length (FlagsOrdered st)) - 1)
             (Section st) of
        (sec, closestLeft) \<Rightarrow>
          if sec = None \<and> closestLeft \<noteq> None then st\<lparr>Section := closestLeft\<rparr>
          else st\<lparr>Section := sec\<rparr>)"

text \<open>Lines 301-312: the first top-level argument becomes the command.\<close>

definition promoteCommand :: "int \<Rightarrow> scan \<Rightarrow> scan" where
  "promoteCommand cursorPosition st =
     (if Command st = None \<and> length (Arguments st) > 0 then
        (case Arguments st of
           a # rest \<Rightarrow>
             let c = \<lparr>start = start a, end' = end' a, value' = value' a\<rparr>;
                 st = st\<lparr>Command := Some c\<rparr>;
                 st = (if within cursorPosition c then st\<lparr>Focus := Some (CmdPtr c)\<rparr> else st)
             in st\<lparr>Arguments := rest\<rparr>
         | [] \<Rightarrow> st)
      else st)"

text \<open>What the pointers of the result point to when \<open>ParseLine\<close> returns.\<close>

definition deref_flag :: "scan \<Rightarrow> FlagRef \<Rightarrow> Flag" where
  "deref_flag st r = (case r of NewFlagVar p \<Rightarrow> vars st ! p | OrderedElem k \<Rightarrow> FlagsOrdered st ! k)"

definition deref_node :: "scan \<Rightarrow> NodeRef \<Rightarrow> Node" where
  "deref_node st r =
     (case r of FlagPtr p \<Rightarrow> FlagNode (vars st ! p)
              | ArgumentPtr a \<Rightarrow> ArgumentNode a
              | CmdPtr c \<Rightarrow> CmdNode c)"

definition result :: "scan \<Rightarrow> (Node, Flag) ParsedLine" where
  "result st =
     \<lparr>FlagsOrdered = FlagsOrdered st, Flags = Flags st, Arguments = Arguments st,
      Focus = map_option (deref_node st) (Focus st),
      Section = map_option (deref_flag st) (Section st),
      Command = Command st, RawLine = RawLine st\<rparr>"

definition initial :: "string \<Rightarrow> scan" where
  "initial line =
     \<lparr>FlagsOrdered = [], Flags = Map.empty, Arguments = [], Focus = None, Section = None,
      Command = None, RawLine = line, vars = [], capture = None\<rparr>"

text \<open>\<open>ParseLine\<close>; \<open>None\<close> is a run-time panic.\<close>

definition ParseLine :: "string \<Rightarrow> int \<Rightarrow> (Node, Flag) ParsedLine option" where
  "ParseLine line cursorPosition =
     (case ParseLine_loop line cursorPosition (initial line) 0 of
        None \<Rightarrow> None
      | Some st \<Rightarrow>
          Some (result (promoteCommand cursorPosition
                          (resolveSection cursorPosition (flushCapture st)))))"

section \<open>The user registry of \<open>internal/server/users/user_management.go\<close>\<close>

text \<open>
  \<open>ssh.Conn\<close> and \<open>ssh.Channel\<close> are interfaces of another module and
  \<open>ShellRequests\<close> is a channel: they are type parameters here, and \<open>None\<close> is the \<open>nil\<close>
  interface or channel. \<open>ssh.Request\<close> is kept by its exported fields. The package
  variable \<open>allUsers\<close> is passed in and returned; \<open>AddUser\<close> holds \<open>lock\<close> from its first
  statement to its return, so it runs as one step on the map.
\<close>

record Request =
  ReqType :: string
  WantReply :: bool
  Payload :: string

record ('conn, 'chan, 'reqs) User =
  IdString :: string
  ServerConnection :: "'conn option"
  ShellConnection :: "'chan option"
  ShellRequests :: "'reqs option"
  ProxyConnection :: "'conn option"
  PtyReq :: Request
  LastWindowChange :: Request

datatype users_error = ErrNilServerConnection

definition zero_Request :: Request where
  "zero_Request = \<lparr>ReqType = [], WantReply = False, Payload = []\<rparr>"

definition AddUser ::
  "(string \<rightharpoonup> ('conn, 'chan, 'reqs) User) \<Rightarrow> string \<Rightarrow> 'conn option \<Rightarrow>
   (('conn, 'chan, 'reqs) User option \<times> users_error option) \<times> (string \<rightharpoonup> ('conn, 'chan, 'reqs) User)" where
  "AddUser allUsers idStr conn =
     (if conn = None then ((None, Some ErrNilServerConnection), allUsers)
      else
        (let us = \<lparr>IdString = idStr, ServerConnection = conn, ShellConnection = None,
                   ShellRequests = None, ProxyConnection = None,
                   PtyReq = zero_Request, LastWindowChange = zero_Request\<rparr>
         in ((Some us, None), allUsers(idStr \<mapsto> us))))"

section \<open>The tokens of a line\<close>

text \<open>
  The space-delimited tokens of a line, as the claims speak of them: the maximal runs of
  bytes other than the space, in order. A token that begins with \<open>-\<close> is a flag token.
  \<open>end_at line p\<close> is the offset the scanners return from offset \<open>p\<close>: the offset of the
  space that ends the token, or of the last byte of the line.
\<close>

function tokens :: "string \<Rightarrow> string list" where
  "tokens [] = []"
| "tokens (c # cs) =
     (if c = CHR '' '' then tokens cs
      else takeWhile (\<lambda>x. x \<noteq> CHR '' '') (c # cs) # tokens (dropWhile (\<lambda>x. x \<noteq> CHR '' '') (c # cs)))"
  by pat_completeness auto
termination
  by (relation "measure length") (auto simp add: less_Suc_eq_le length_dropWhile_le)


definition end_at :: "string \<Rightarrow> int \<Rightarrow> int" where
  "end_at line p =
     (if p + int (length (token_at line p)) < int (length line)
      then p + int (length (token_at line p)) else int (length line) - 1)"

lemma token_at_nonempty:
  "0 \<le> p \<Longrightarrow> p < int (length line) \<Longrightarrow> line ! nat p \<noteq> CHR '' '' \<Longrightarrow> token_at line p \<noteq> []"
  by (simp add: token_at_step)

lemma token_at_empty_iff:
  "0 \<le> p \<Longrightarrow> p < int (length line) \<Longrightarrow> token_at line p = [] \<longleftrightarrow> line ! nat p = CHR '' ''"
  using token_at_nonempty token_at_space by blast

lemma token_at_bound:
  "0 \<le> p \<Longrightarrow> p \<le> int (length line) \<Longrightarrow> p + int (length (token_at line p)) \<le> int (length line)"
  using token_at_length[of p line] by simp

lemma end_at_bounds:
  assumes "0 \<le> p" "p < int (length line)"
  shows "p \<le> end_at line p" "end_at line p < int (length line)"
        "end_at line p \<le> p + int (length (token_at line p))"
  using assms token_at_bound[of p line] by (auto simp add: end_at_def)

lemma drop_token:
  "0 \<le> p \<Longrightarrow> dropWhile (\<lambda>x. x \<noteq> CHR '' '') (drop (nat p) line)
     = drop (nat (p + int (length (token_at line p)))) line"
  by (simp add: token_at_def dropWhile_eq_drop nat_add_distrib add.commute)

lemma token_end_is_space:
  assumes "0 \<le> p" "p + int (length (token_at line p)) < int (length line)"
  shows "line ! nat (p + int (length (token_at line p))) = CHR '' ''"
proof -
  let ?P = "\<lambda>x. x \<noteq> CHR '' ''"
  let ?s = "drop (nat p) line"
  have n: "length (takeWhile ?P ?s) < length ?s"
    using assms by (simp add: token_at_def)
  then have "\<not> ?P (?s ! length (takeWhile ?P ?s))"
    by (rule nth_length_takeWhile)
  moreover have "?s ! length (takeWhile ?P ?s) = line ! (nat p + length (takeWhile ?P ?s))"
    using n by simp
  moreover have "nat (p + int (length (token_at line p))) = nat p + length (takeWhile ?P ?s)"
    using assms by (simp add: token_at_def nat_add_distrib)
  ultimately show ?thesis by simp
qed

lemma tokens_drop_space:
  "0 \<le> p \<Longrightarrow> p < int (length line) \<Longrightarrow> line ! nat p = CHR '' '' \<Longrightarrow>
   tokens (drop (nat p) line) = tokens (drop (nat (p + 1)) line)"
  by (simp add: drop_at_offset)

lemma tokens_step:
  assumes "0 \<le> p" "p < int (length line)"
  shows "tokens (drop (nat p) line) =
           (if token_at line p = [] then [] else [token_at line p])
           @ tokens (drop (nat (end_at line p + 1)) line)"
proof (cases "line ! nat p = CHR '' ''")
  case True
  with assms have "token_at line p = []" by (simp add: token_at_space)
  moreover from this assms have "end_at line p = p" by (simp add: end_at_def)
  ultimately show ?thesis using assms True by (simp add: tokens_drop_space)
next
  case False
  with assms have ne: "token_at line p \<noteq> []" by (simp add: token_at_nonempty)
  from assms False have
    "tokens (drop (nat p) line) =
       token_at line p # tokens (dropWhile (\<lambda>x. x \<noteq> CHR '' '') (drop (nat p) line))"
    by (simp add: drop_at_offset[of p line] token_at_def)
  also have "dropWhile (\<lambda>x. x \<noteq> CHR '' '') (drop (nat p) line)
               = drop (nat (p + int (length (token_at line p)))) line"
    using assms by (simp add: drop_token)
  also have "tokens (drop (nat (p + int (length (token_at line p)))) line)
               = tokens (drop (nat (end_at line p + 1)) line)"
  proof (cases "p + int (length (token_at line p)) < int (length line)")
    case True
    then show ?thesis
      using assms token_end_is_space[of p line]
      by (simp add: end_at_def tokens_drop_space)
  next
    case False
    then show ?thesis by (simp add: end_at_def)
  qed
  finally show ?thesis using ne by simp
qed


definition is_flag_token :: "string \<Rightarrow> bool" where
  "is_flag_token t = (case t of [] \<Rightarrow> False | c # _ \<Rightarrow> c = CHR ''-'')"

definition arg_tokens :: "string \<Rightarrow> string list" where
  "arg_tokens s = filter (\<lambda>t. \<not> is_flag_token t) (tokens s)"

lemma string_of_byte_nonempty: "string_of_byte b \<noteq> []"
  by (simp add: string_of_byte_def Let_def)

lemma string_of_bytes_empty_iff: "string_of_bytes t = [] \<longleftrightarrow> t = []"
  by (cases t) (simp_all add: string_of_bytes_def string_of_byte_nonempty)

lemma parseSingleArg_at:
  "0 \<le> p \<Longrightarrow> p < int (length line) \<Longrightarrow>
   parseSingleArg line p =
     Some (\<lparr>start = p, end' = p + int (length (token_at line p)),
            value' = string_of_bytes (token_at line p)\<rparr>, end_at line p)"
  by (simp add: parseSingleArg_eq end_at_def)

lemma arg_tokens_step:
  assumes "0 \<le> p" "p < int (length line)" "line ! nat p \<noteq> CHR ''-''"
  shows "arg_tokens (drop (nat p) line) =
           (if token_at line p = [] then [] else [token_at line p])
           @ arg_tokens (drop (nat (end_at line p + 1)) line)"
proof (cases "line ! nat p = CHR '' ''")
  case True
  with assms show ?thesis
    by (simp add: arg_tokens_def tokens_step[of p line] token_at_space)
next
  case False
  with assms have "token_at line p = line ! nat p # token_at line (p + 1)"
    by (simp add: token_at_step)
  with assms show ?thesis
    by (simp add: arg_tokens_def tokens_step[of p line] is_flag_token_def)
qed

lemma flag_tokens_step:
  assumes "0 \<le> p" "p < int (length line)" "line ! nat p = CHR ''-''"
  shows "arg_tokens (drop (nat p) line) = arg_tokens (drop (nat (end_at line p + 1)) line)"
proof -
  from assms have "token_at line p = line ! nat p # token_at line (p + 1)"
    by (simp add: token_at_step)
  with assms show ?thesis
    by (simp add: arg_tokens_def tokens_step[of p line] is_flag_token_def)
qed

lemma parseArgs_loop_props:
  assumes "0 \<le> p" and "p \<le> int (length line)"
      and "p < int (length line) \<longrightarrow> line ! nat p \<noteq> CHR ''-''"
  shows "\<exists>r e. parseArgs_loop line args p = Some (args @ r, e) \<and> p \<le> e \<and> e \<le> int (length line)
           \<and> (\<forall>a\<in>set r. p \<le> start a \<and> start a < end' a \<and> end' a \<le> e \<and> value' a \<noteq> [])
           \<and> map value' r @ map string_of_bytes (arg_tokens (drop (nat (e + 1)) line))
               = map string_of_bytes (arg_tokens (drop (nat p) line))
           \<and> (e + 1 < int (length line) \<longrightarrow> line ! nat (e + 1) = CHR ''-'')"
  using assms
proof (induction line args p rule: parseArgs_loop.induct)
  case (1 line args p)
  let ?L = "int (length line)"
  show ?case
  proof (cases "p < ?L")
    case False
    with 1(4) have "p = ?L" by simp
    then show ?thesis
      by (subst parseArgs_loop.simps) simp
  next
    case True
    let ?tok = "token_at line p"
    let ?arg = "\<lparr>start = p, end' = p + int (length ?tok), value' = string_of_bytes ?tok\<rparr>"
    let ?e = "end_at line p"
    let ?r0 = "if ?tok = [] then [] else [?arg]"
    let ?args = "if length (value' ?arg) \<noteq> 0 then args @ [?arg] else args"
    have s: "parseSingleArg line p = Some (?arg, ?e)"
      using 1(3) True by (rule parseSingleArg_at)
    have args: "?args = args @ ?r0"
      by (simp add: string_of_bytes_empty_iff)
    from True 1(5) have nd: "line ! nat p \<noteq> CHR ''-''" by simp
    have eb: "p \<le> ?e" "?e < ?L" "?e \<le> p + int (length ?tok)"
      using end_at_bounds[OF 1(3) True] by simp_all
    have tk: "arg_tokens (drop (nat p) line) =
                (if ?tok = [] then [] else [?tok]) @ arg_tokens (drop (nat (?e + 1)) line)"
      using 1(3) True nd by (rule arg_tokens_step)
    have r0: "\<forall>a\<in>set ?r0. p \<le> start a \<and> start a < end' a \<and> end' a \<le> ?L \<and> value' a \<noteq> []"
      using token_at_bound[of p line] 1(3) True by (simp add: string_of_bytes_empty_iff)
    have r0e: "?e \<noteq> ?L - 1 \<Longrightarrow> \<forall>a\<in>set ?r0. end' a \<le> ?e"
      by (simp add: end_at_def split: if_splits)
    have r0v: "map value' ?r0 = map string_of_bytes (if ?tok = [] then [] else [?tok])"
      by simp
    show ?thesis
    proof (cases "?e \<noteq> ?L - 1")
      case ne: True
      with eb 1(3) have b: "byte_at line (?e + 1) = Some (line ! nat (?e + 1))"
        by (simp add: byte_at_in_range)
      show ?thesis
      proof (cases "line ! nat (?e + 1) = CHR ''-''")
        case dash: True
        have "parseArgs_loop line args p = Some (args @ ?r0, ?e)"
          using True s ne b dash args by (subst parseArgs_loop.simps) simp
        moreover have "map value' ?r0 @ map string_of_bytes (arg_tokens (drop (nat (?e + 1)) line))
                        = map string_of_bytes (arg_tokens (drop (nat p) line))"
          unfolding tk r0v by simp
        ultimately show ?thesis using eb r0 r0e[OF ne] dash
          by (intro exI[of _ ?r0] exI[of _ ?e]) auto
      next
        case nodash: False
        have pre: "0 \<le> ?e + 1" "?e + 1 \<le> ?L" "?e + 1 < ?L \<longrightarrow> line ! nat (?e + 1) \<noteq> CHR ''-''"
          using eb 1(3) nodash by simp_all
        from 1(1)[OF True s refl ne b nodash pre]
        obtain r e where ih: "parseArgs_loop line ?args (?e + 1) = Some (?args @ r, e)"
            "?e + 1 \<le> e" "e \<le> ?L"
            "\<forall>a\<in>set r. ?e + 1 \<le> start a \<and> start a < end' a \<and> end' a \<le> e \<and> value' a \<noteq> []"
            "map value' r @ map string_of_bytes (arg_tokens (drop (nat (e + 1)) line))
               = map string_of_bytes (arg_tokens (drop (nat (?e + 1)) line))"
            "e + 1 < ?L \<longrightarrow> line ! nat (e + 1) = CHR ''-''"
          by blast
        have "parseArgs_loop line args p = Some (args @ (?r0 @ r), e)"
          using True s ne b nodash ih(1) args by (subst parseArgs_loop.simps) simp
        moreover have "map value' (?r0 @ r) @ map string_of_bytes (arg_tokens (drop (nat (e + 1)) line))
                        = map string_of_bytes (arg_tokens (drop (nat p) line))"
          unfolding tk using ih(5) r0v by simp
        moreover have "\<forall>a\<in>set (?r0 @ r). p \<le> start a \<and> start a < end' a \<and> end' a \<le> e \<and> value' a \<noteq> []"
          using r0 r0e[OF ne] ih(2,4) eb by auto
        ultimately show ?thesis using eb ih(2,3,6)
          by (intro exI[of _ "?r0 @ r"] exI[of _ e]) auto
      qed
    next
      case eq: False
      have pre: "0 \<le> ?e + 1" "?e + 1 \<le> ?L" "?e + 1 < ?L \<longrightarrow> line ! nat (?e + 1) \<noteq> CHR ''-''"
        using eb 1(3) eq by simp_all
      from 1(2)[OF True s refl eq pre]
      obtain r e where ih: "parseArgs_loop line ?args (?e + 1) = Some (?args @ r, e)"
          "?e + 1 \<le> e" "e \<le> ?L"
          "\<forall>a\<in>set r. ?e + 1 \<le> start a \<and> start a < end' a \<and> end' a \<le> e \<and> value' a \<noteq> []"
          "map value' r @ map string_of_bytes (arg_tokens (drop (nat (e + 1)) line))
             = map string_of_bytes (arg_tokens (drop (nat (?e + 1)) line))"
          "e + 1 < ?L \<longrightarrow> line ! nat (e + 1) = CHR ''-''"
        by blast
      from eq ih(2,3) have eL: "e = ?L" by simp
      have "parseArgs_loop line args p = Some (args @ (?r0 @ r), e)"
        using True s eq ih(1) args by (subst parseArgs_loop.simps) simp
      moreover have "map value' (?r0 @ r) @ map string_of_bytes (arg_tokens (drop (nat (e + 1)) line))
                      = map string_of_bytes (arg_tokens (drop (nat p) line))"
        unfolding tk using ih(5) r0v by simp
      moreover have "\<forall>a\<in>set (?r0 @ r). p \<le> start a \<and> start a < end' a \<and> end' a \<le> e \<and> value' a \<noteq> []"
        using r0 ih(2,4) eb eL by auto
      ultimately show ?thesis using eb ih(2,3,6)
        by (intro exI[of _ "?r0 @ r"] exI[of _ e]) auto
    qed
  qed
qed

section \<open>One pass of the loop, in closed form\<close>

text \<open>
  \<open>flag_at line i\<close> is the flag \<open>parseFlag\<close> scans at offset \<open>i\<close>, and \<open>flag_step\<close> and
  \<open>args_step\<close> are the state after one pass of the loop of \<open>ParseLine\<close>, through either
  branch of its body.
\<close>

definition flag_at :: "string \<Rightarrow> int \<Rightarrow> Flag" where
  "flag_at line p =
     \<lparr>start = p, end' = p + int (length (token_at line p)),
      value' = string_of_bytes (dropWhile (\<lambda>c. c = CHR ''-'') (token_at line p)),
      Args = [],
      long = (dropWhile (\<lambda>c. c = CHR ''-'') (token_at line p) \<noteq> []
              \<and> 1 < length (takeWhile (\<lambda>c. c = CHR ''-'') (token_at line p)))\<rparr>"

lemma parseFlag_at:
  "0 \<le> p \<Longrightarrow> p < int (length line) \<Longrightarrow> parseFlag line p = Some (flag_at line p, end_at line p)"
  by (simp add: parseFlag_eq end_at_def flag_at_def)

lemma flag_at_simps [simp]:
  "start (flag_at line p) = p"
  "end' (flag_at line p) = p + int (length (token_at line p))"
  "Args (flag_at line p) = []"
  by (simp_all add: flag_at_def)

definition bundled :: "int \<Rightarrow> int \<Rightarrow> string \<Rightarrow> Flag" where
  "bundled s e c = \<lparr>start = s, end' = e, value' = c, Args = [], long = False\<rparr>"

lemma fold_addBundled:
  "fold (addBundled s e) cs st =
     st\<lparr>Flags := (\<lambda>n. if n \<in> set cs then Some (bundled s e n) else Flags st n),
        FlagsOrdered := FlagsOrdered st @ map (bundled s e) cs\<rparr>"
proof (induction cs arbitrary: st)
  case Nil
  show ?case by simp
next
  case (Cons c cs)
  show ?case
    by (simp add: Cons.IH) (auto simp add: addBundled_def bundled_def fun_eq_iff)
qed

lemma fold_focusArg:
  "fold (focusArg c) args st =
     (if \<exists>a\<in>set args. within c a
      then st\<lparr>Focus := Some (ArgumentPtr (last (filter (within c) args))),
              Section := map_option NewFlagVar (capture st)\<rparr>
      else st)"
proof (induction args rule: rev_induct)
  case Nil
  show ?case by simp
next
  case (snoc a args)
  show ?case
    by (simp add: snoc.IH) (auto simp add: focusArg_def)
qed

lemma ParseLine_loop_rule:
  assumes init: "P st i"
      and step: "\<And>st i. P st i \<Longrightarrow> i < int (length line) \<Longrightarrow>
                   \<exists>st' i'. ParseLine_body line c st i = Some (st', i') \<and> P st' (i' + 1)"
  shows "\<exists>st' j. ParseLine_loop line c st i = Some st' \<and> int (length line) \<le> j \<and> P st' j"
  using init step
proof (induction line c st i rule: ParseLine_loop.induct)
  case (1 line c st i)
  show ?case
  proof (cases "i < int (length line)")
    case False
    with 1(2) have "ParseLine_loop line c st i = Some st \<and> int (length line) \<le> i \<and> P st i"
      by (subst ParseLine_loop.simps) simp
    then show ?thesis by blast
  next
    case True
    from 1(3)[OF 1(2) True] obtain st' i' where
      b: "ParseLine_body line c st i = Some (st', i')" and p: "P st' (i' + 1)"
      by blast
    from 1(1)[OF True b refl p 1(3)] b True show ?thesis
      by (subst ParseLine_loop.simps) simp
  qed
qed


definition flag_step :: "string \<Rightarrow> int \<Rightarrow> scan \<Rightarrow> int \<Rightarrow> scan" where
  "flag_step line c st i =
     (let st1 = flushCapture st;
          st2 = st1\<lparr>vars := vars st @ [flag_at line i]\<rparr>;
          st3 = (if within c (flag_at line i)
                 then st2\<lparr>Focus := Some (FlagPtr (length (vars st))),
                         Section := Some (NewFlagVar (length (vars st)))\<rparr>
                 else st2)
      in if long (flag_at line i) \<or> length (value' (flag_at line i)) = 1
         then st3\<lparr>capture := Some (length (vars st))\<rparr>
         else st3\<lparr>capture := None,
                 Flags := (\<lambda>n. if n \<in> set (range_strings (value' (flag_at line i)))
                               then Some (bundled i (end_at line i) n) else Flags st1 n),
                 FlagsOrdered := FlagsOrdered st1
                    @ map (bundled i (end_at line i)) (range_strings (value' (flag_at line i)))\<rparr>)"

definition args_step :: "int \<Rightarrow> scan \<Rightarrow> Argument list \<Rightarrow> scan" where
  "args_step c st r =
     (let st1 = st\<lparr>Arguments := Arguments st @ r\<rparr>;
          st2 = (if \<exists>a\<in>set r. within c a
                 then st1\<lparr>Focus := Some (ArgumentPtr (last (filter (within c) r))),
                         Section := map_option NewFlagVar (capture st)\<rparr>
                 else st1)
      in case capture st of
           Some p \<Rightarrow> st2\<lparr>vars := (vars st)[p := (vars st ! p)\<lparr>Args := r\<rparr>]\<rparr>
         | None \<Rightarrow> st2)"

lemma flushCapture_simps [simp]:
  "vars (flushCapture st) = vars st"
  "capture (flushCapture st) = capture st"
  "Arguments (flushCapture st) = Arguments st"
  "Focus (flushCapture st) = Focus st"
  "Section (flushCapture st) = Section st"
  "Command (flushCapture st) = Command st"
  "RawLine (flushCapture st) = RawLine st"
  by (simp_all add: flushCapture_def split: option.splits)

lemma body_flag:
  assumes "0 \<le> i" "i < int (length line)" "line ! nat i = CHR ''-''"
  shows "ParseLine_body line c st i = Some (flag_step line c st i, end_at line i)"
  using assms
  by (auto simp add: ParseLine_body_def byte_at_in_range flagBranch_def parseFlag_at
        flag_step_def fold_addBundled Let_def cong: if_cong)

lemma body_args:
  assumes "0 \<le> i" "i < int (length line)" "line ! nat i \<noteq> CHR ''-''"
  shows "\<exists>r e. ParseLine_body line c st i = Some (args_step c st r, e)
           \<and> i \<le> e \<and> e \<le> int (length line)
           \<and> (\<forall>a\<in>set r. i \<le> start a \<and> start a < end' a \<and> end' a \<le> e \<and> value' a \<noteq> [])
           \<and> map value' r @ map string_of_bytes (arg_tokens (drop (nat (e + 1)) line))
               = map string_of_bytes (arg_tokens (drop (nat i) line))
           \<and> (e + 1 < int (length line) \<longrightarrow> line ! nat (e + 1) = CHR ''-'')"
proof -
  from parseArgs_loop_props[of i line "[]"] assms
  obtain r e where r: "parseArgs line i = Some (r, e)" "i \<le> e" "e \<le> int (length line)"
     "\<forall>a\<in>set r. i \<le> start a \<and> start a < end' a \<and> end' a \<le> e \<and> value' a \<noteq> []"
     "map value' r @ map string_of_bytes (arg_tokens (drop (nat (e + 1)) line))
               = map string_of_bytes (arg_tokens (drop (nat i) line))"
     "e + 1 < int (length line) \<longrightarrow> line ! nat (e + 1) = CHR ''-''"
    unfolding parseArgs_def by auto
  have "ParseLine_body line c st i = Some (args_step c st r, e)"
    using assms r(1)
    by (auto simp add: ParseLine_body_def byte_at_in_range argsBranch_def args_step_def
          fold_focusArg Let_def split: option.splits)
  with r show ?thesis by blast
qed

section \<open>Notions the properties are stated with\<close>

text \<open>
  \<open>span_within\<close>: the offsets of a node lie within the line, \<open>end\<close> inclusive of the
  length. \<open>top_level pl\<close>: the command, if any, followed by the top-level arguments.
  \<open>accounted pl\<close>: the count the specification gives for the tokens of a line, the
  command, the top-level arguments and each flag's arguments. \<open>owns c f\<close>: the cursor
  lies within an argument of \<open>f\<close>. \<open>Section_spec\<close>: the section, told from the rest of the
  result: the last flag of \<open>FlagsOrdered\<close> the cursor lies within; failing that, the
  flag that owns an argument the cursor lies within; failing that, the focused node
  when it is a flag; failing that, the last flag of \<open>FlagsOrdered\<close> that ends at or
  before the cursor.
\<close>

definition span_within :: "string \<Rightarrow> 'a baseNode_scheme \<Rightarrow> bool" where
  "span_within line n \<longleftrightarrow>
     0 \<le> start n \<and> start n < int (length line) \<and> start n \<le> end' n \<and> end' n \<le> int (length line)"

definition flag_within :: "string \<Rightarrow> Flag \<Rightarrow> bool" where
  "flag_within line f \<longleftrightarrow> span_within line f \<and> (\<forall>a\<in>set (Args f). span_within line a)"

definition top_level :: "('n, 's) ParsedLine \<Rightarrow> Argument list" where
  "top_level pl = (case Command pl of None \<Rightarrow> [] | Some c \<Rightarrow> [c]) @ Arguments pl"

definition accounted :: "('n, 's) ParsedLine \<Rightarrow> nat" where
  "accounted pl =
     (case Command pl of None \<Rightarrow> 0 | Some c \<Rightarrow> 1) + length (Arguments pl)
     + sum_list (map (\<lambda>f. length (Args f)) (FlagsOrdered pl))"

definition owns :: "int \<Rightarrow> Flag \<Rightarrow> bool" where
  "owns c f \<longleftrightarrow> (\<exists>a\<in>set (Args f). within c a)"


section \<open>An invariant of the scan\<close>

text \<open>
  At the head of the loop with index \<open>i\<close>, every node built so far has its offsets within
  the line and ends before \<open>i\<close> (unless the line is exhausted); the map holds flags of the
  slice under their names; and \<open>capture\<close>, \<open>pl.Focus\<close> and \<open>pl.Section\<close> point at
  variables that exist, the focus at a node the cursor lies within.
\<close>

definition node_ok :: "int \<Rightarrow> int \<Rightarrow> 'a baseNode_scheme \<Rightarrow> bool" where
  "node_ok L i n \<longleftrightarrow>
     0 \<le> start n \<and> start n < L \<and> start n \<le> end' n \<and> end' n \<le> L \<and> (i < L \<longrightarrow> end' n < i)"

definition flag_ok :: "int \<Rightarrow> int \<Rightarrow> Flag \<Rightarrow> bool" where
  "flag_ok L i f \<longleftrightarrow>
     node_ok L i f \<and> (\<forall>a\<in>set (Args f). node_ok L i a \<and> end' f < start a)"

definition scan_inv :: "string \<Rightarrow> int \<Rightarrow> scan \<Rightarrow> int \<Rightarrow> bool" where
  "scan_inv line c st i \<longleftrightarrow>
     0 \<le> i \<and> Command st = None \<and>
     (\<forall>f\<in>set (vars st). flag_ok (int (length line)) i f) \<and>
     (\<forall>f\<in>set (FlagsOrdered st). flag_ok (int (length line)) i f) \<and>
     (\<forall>n f. Flags st n = Some f \<longrightarrow> f \<in> set (FlagsOrdered st) \<and> value' f = n) \<and>
     (\<forall>a\<in>set (Arguments st). node_ok (int (length line)) i a) \<and>
     (\<forall>p. capture st = Some p \<longrightarrow> p < length (vars st)) \<and>
     (\<forall>p. Focus st = Some (FlagPtr p) \<longrightarrow> p < length (vars st) \<and> within c (vars st ! p)) \<and>
     (\<forall>a. Focus st = Some (ArgumentPtr a) \<longrightarrow> a \<in> set (Arguments st) \<and> within c a) \<and>
     (\<forall>x. Focus st \<noteq> Some (CmdPtr x)) \<and>
     (\<forall>p. Section st = Some (NewFlagVar p) \<longrightarrow> p < length (vars st)) \<and>
     (\<forall>k. Section st \<noteq> Some (OrderedElem k))"

lemma node_ok_mono: "node_ok L i n \<Longrightarrow> i \<le> j \<Longrightarrow> node_ok L j n"
  by (auto simp add: node_ok_def)

lemma flag_ok_mono: "flag_ok L i f \<Longrightarrow> i \<le> j \<Longrightarrow> flag_ok L j f"
  by (auto simp add: flag_ok_def intro: node_ok_mono)

lemma flag_at_ok:
  assumes "0 \<le> i" "i < int (length line)"
  shows "flag_ok (int (length line)) (end_at line i + 1) (flag_at line i)"
  using assms token_at_bound[of i line]
  by (auto simp add: flag_ok_def node_ok_def end_at_def)

lemma bundled_ok:
  assumes "0 \<le> i" "i < int (length line)"
  shows "flag_ok (int (length line)) (end_at line i + 1) (bundled i (end_at line i) n)"
  using assms end_at_bounds[of i line]
  by (auto simp add: flag_ok_def node_ok_def bundled_def)

lemma flushCapture_FlagsOrdered:
  "set (FlagsOrdered (flushCapture st)) =
     set (FlagsOrdered st) \<union> (case capture st of None \<Rightarrow> {} | Some p \<Rightarrow> {vars st ! p})"
  by (simp add: flushCapture_def split: option.splits)

lemma flushCapture_Flags:
  "Flags (flushCapture st) n = Some f \<Longrightarrow>
     Flags st n = Some f \<or> (\<exists>p. capture st = Some p \<and> f = vars st ! p \<and> value' f = n)"
  by (auto simp add: flushCapture_def split: option.splits if_splits)

lemma flushCapture_inv:
  assumes "scan_inv line c st i"
  shows "scan_inv line c (flushCapture st) i"
  using assms unfolding scan_inv_def
  by (auto simp add: flushCapture_FlagsOrdered dest!: flushCapture_Flags split: option.splits)

lemma flag_step_inv:
  assumes inv: "scan_inv line c st i" and lt: "i < int (length line)"
  shows "scan_inv line c (flag_step line c st i) (end_at line i + 1)"
proof -
  let ?L = "int (length line)"
  let ?j = "end_at line i + 1"
  from inv have i0: "0 \<le> i" by (simp add: scan_inv_def)
  have le: "i \<le> ?j" using end_at_bounds[OF i0 lt] by simp
  note f = flushCapture_inv[OF inv]
  have nf: "flag_ok ?L ?j (flag_at line i)" using i0 lt by (rule flag_at_ok)
  have bf: "\<And>n. flag_ok ?L ?j (bundled i (end_at line i) n)" using i0 lt by (rule bundled_ok)
  have v: "\<forall>f\<in>set (vars st). flag_ok ?L ?j f"
    using inv le by (auto simp add: scan_inv_def intro: flag_ok_mono)
  have o: "\<forall>f\<in>set (FlagsOrdered (flushCapture st)). flag_ok ?L ?j f"
    using f le by (auto simp add: scan_inv_def intro: flag_ok_mono)
  have a: "\<forall>a\<in>set (Arguments st). node_ok ?L ?j a"
    using inv le by (auto simp add: scan_inv_def intro: node_ok_mono)
  have m: "\<forall>n g. Flags (flushCapture st) n = Some g \<longrightarrow> g \<in> set (FlagsOrdered (flushCapture st)) \<and> value' g = n"
    using f by (simp add: scan_inv_def)
  have w: "within c (flag_at line i) \<Longrightarrow> within c ((vars st @ [flag_at line i]) ! length (vars st))"
    by simp
  have rest: "Command st = None"
     "\<forall>p. Focus st = Some (FlagPtr p) \<longrightarrow> p < length (vars st) \<and> within c (vars st ! p)"
     "\<forall>a. Focus st = Some (ArgumentPtr a) \<longrightarrow> a \<in> set (Arguments st) \<and> within c a"
     "\<forall>x. Focus st \<noteq> Some (CmdPtr x)"
     "\<forall>p. Section st = Some (NewFlagVar p) \<longrightarrow> p < length (vars st)"
     "\<forall>k. Section st \<noteq> Some (OrderedElem k)"
    using inv by (simp_all add: scan_inv_def)
  show ?thesis
    unfolding scan_inv_def flag_step_def Let_def
    using i0 le nf bf v o a m rest
    by (auto simp add: nth_append bundled_def)
qed


lemma within_Args_update [simp]: "within c (f\<lparr>Args := r\<rparr>) = within c f"
  by (simp add: within_def)

lemma last_filter_within:
  assumes "\<exists>a\<in>set r. within c a"
  shows "last (filter (within c) r) \<in> set r \<and> within c (last (filter (within c) r))"
proof -
  from assms have "filter (within c) r \<noteq> []" by (simp add: filter_empty_conv)
  then have "last (filter (within c) r) \<in> set (filter (within c) r)" by (rule last_in_set)
  then show ?thesis by simp
qed

lemma args_step_inv:
  assumes inv: "scan_inv line c st i"
      and r: "\<forall>a\<in>set r. i \<le> start a \<and> start a < end' a \<and> end' a \<le> e"
      and e: "i \<le> e" "e \<le> int (length line)"
  shows "scan_inv line c (args_step c st r) (e + 1)"
proof -
  let ?L = "int (length line)"
  let ?j = "e + 1"
  from inv have i0: "0 \<le> i" by (simp add: scan_inv_def)
  have le: "i \<le> ?j" using e by simp
  have rok: "\<forall>a\<in>set r. node_ok ?L ?j a"
    using r e i0 by (auto simp add: node_ok_def)
  have v: "\<forall>f\<in>set (vars st). flag_ok ?L ?j f"
    using inv le by (auto simp add: scan_inv_def intro: flag_ok_mono)
  have o: "\<forall>f\<in>set (FlagsOrdered st). flag_ok ?L ?j f"
    using inv le by (auto simp add: scan_inv_def intro: flag_ok_mono)
  have a: "\<forall>a\<in>set (Arguments st). node_ok ?L ?j a"
    using inv le by (auto simp add: scan_inv_def intro: node_ok_mono)
  have vu: "\<And>p. p < length (vars st) \<Longrightarrow>
              \<forall>f\<in>set ((vars st)[p := (vars st ! p)\<lparr>Args := r\<rparr>]). flag_ok ?L ?j f"
  proof
    fix p f assume p: "p < length (vars st)" and f: "f \<in> set ((vars st)[p := (vars st ! p)\<lparr>Args := r\<rparr>])"
    from f have "f = (vars st ! p)\<lparr>Args := r\<rparr> \<or> f \<in> set (vars st)"
      using set_update_subset_insert[of "vars st" p] by auto
    moreover from p v have "flag_ok ?L ?j (vars st ! p)" by simp
    moreover have "\<forall>a\<in>set r. end' (vars st ! p) < start a"
    proof
      fix a assume a: "a \<in> set r"
      with r e have "i < ?L" by fastforce
      with inv p have "end' (vars st ! p) < i"
        by (simp add: scan_inv_def flag_ok_def node_ok_def)
      with r a show "end' (vars st ! p) < start a" by fastforce
    qed
    ultimately have "flag_ok ?L ?j ((vars st ! p)\<lparr>Args := r\<rparr>)"
      using rok by (simp add: flag_ok_def node_ok_def)
    with \<open>f = (vars st ! p)\<lparr>Args := r\<rparr> \<or> f \<in> set (vars st)\<close>
    show "flag_ok ?L ?j f" using v by auto
  qed
  have lf: "(\<exists>a\<in>set r. within c a) \<Longrightarrow>
              last (filter (within c) r) \<in> set r \<and> within c (last (filter (within c) r))"
    by (rule last_filter_within)
  have rest: "Command st = None"
     "\<forall>n f. Flags st n = Some f \<longrightarrow> f \<in> set (FlagsOrdered st) \<and> value' f = n"
     "\<forall>p. capture st = Some p \<longrightarrow> p < length (vars st)"
     "\<forall>p. Focus st = Some (FlagPtr p) \<longrightarrow> p < length (vars st) \<and> within c (vars st ! p)"
     "\<forall>a. Focus st = Some (ArgumentPtr a) \<longrightarrow> a \<in> set (Arguments st) \<and> within c a"
     "\<forall>x. Focus st \<noteq> Some (CmdPtr x)"
     "\<forall>p. Section st = Some (NewFlagVar p) \<longrightarrow> p < length (vars st)"
     "\<forall>k. Section st \<noteq> Some (OrderedElem k)"
    using inv by (simp_all add: scan_inv_def)
  show ?thesis
  proof (cases "capture st")
    case None
    then show ?thesis
      unfolding scan_inv_def args_step_def Let_def
      using i0 le rok v o a lf rest
      by auto
  next
    case (Some p)
    with rest(3) have p: "p < length (vars st)" by simp
    show ?thesis
      unfolding scan_inv_def args_step_def Let_def
      using i0 le rok v o a lf rest Some p vu[OF p]
      by (auto simp add: nth_list_update)
  qed
qed

lemma initial_inv: "scan_inv line c (initial line) 0"
  by (simp add: scan_inv_def initial_def)

lemma body_inv:
  assumes "scan_inv line c st i" and "i < int (length line)"
  shows "\<exists>st' i'. ParseLine_body line c st i = Some (st', i') \<and> scan_inv line c st' (i' + 1)"
proof -
  from assms(1) have i0: "0 \<le> i" by (simp add: scan_inv_def)
  show ?thesis
  proof (cases "line ! nat i = CHR ''-''")
    case True
    from body_flag[OF i0 assms(2) True] flag_step_inv[OF assms]
    show ?thesis by blast
  next
    case False
    from body_args[OF i0 assms(2) False, of c st] obtain r e where
      b: "ParseLine_body line c st i = Some (args_step c st r, e)" "i \<le> e" "e \<le> int (length line)"
         "\<forall>a\<in>set r. i \<le> start a \<and> start a < end' a \<and> end' a \<le> e \<and> value' a \<noteq> []"
      by blast
    from b(4) have "\<forall>a\<in>set r. i \<le> start a \<and> start a < end' a \<and> end' a \<le> e" by blast
    from args_step_inv[OF assms(1) this b(2,3)] b(1) show ?thesis by blast
  qed
qed

lemma ParseLine_loop_inv:
  "\<exists>st j. ParseLine_loop line c (initial line) 0 = Some st \<and> int (length line) \<le> j
           \<and> scan_inv line c st j"
  by (rule ParseLine_loop_rule[where P = "scan_inv line c", OF initial_inv body_inv])

section \<open>After the loop\<close>

text \<open>
  \<open>stops c f\<close>: the walk of lines 283-295 does not pass over \<open>f\<close>. The walk finds the
  last flag of the slice it does not pass over, and \<open>finish\<close> is everything \<open>ParseLine\<close>
  does after its loop.
\<close>

definition stops :: "int \<Rightarrow> Flag \<Rightarrow> bool" where
  "stops c f \<longleftrightarrow> within c f \<or> end' f \<le> c"

lemma sectionWalk_find:
  "n \<le> length fs \<Longrightarrow>
   \<exists>s cl. sectionWalk c fs (int n - 1) sec = (s, cl) \<and>
     (case find (stops c) (rev (take n fs)) of
        None \<Rightarrow> s = sec \<and> cl = None
      | Some f \<Rightarrow> \<exists>k<n. fs ! k = f \<and>
          (if within c f then s = Some (OrderedElem k) \<and> cl = None
           else s = sec \<and> cl = Some (OrderedElem k)))"
proof (induction n)
  case 0
  show ?case by (subst sectionWalk.simps) simp
next
  case (Suc n)
  then have n: "n < length fs" by simp
  have t: "rev (take (Suc n) fs) = fs ! n # rev (take n fs)"
    using n by (simp add: take_Suc_conv_app_nth)
  have i: "int (Suc n) - 1 = int n" by simp
  show ?case
  proof (cases "stops c (fs ! n)")
    case True
    then show ?thesis
      unfolding t i
      by (subst sectionWalk.simps) (auto simp add: stops_def within_def)
  next
    case False
    from Suc.IH n obtain s cl where ih: "sectionWalk c fs (int n - 1) sec = (s, cl)"
      "(case find (stops c) (rev (take n fs)) of
        None \<Rightarrow> s = sec \<and> cl = None
      | Some f \<Rightarrow> \<exists>k<n. fs ! k = f \<and>
          (if within c f then s = Some (OrderedElem k) \<and> cl = None
           else s = sec \<and> cl = Some (OrderedElem k)))"
      by auto
    have "sectionWalk c fs (int n) sec = (s, cl)"
      using False ih(1) by (subst sectionWalk.simps) (auto simp add: stops_def within_def)
    moreover have "find (stops c) (rev (take (Suc n) fs)) = find (stops c) (rev (take n fs))"
      unfolding t using False by simp
    ultimately show ?thesis
      unfolding i using ih(2) by (auto split: option.splits intro: less_SucI)
  qed
qed

lemma resolveSection_fields [simp]:
  "vars (resolveSection c st) = vars st"
  "capture (resolveSection c st) = capture st"
  "FlagsOrdered (resolveSection c st) = FlagsOrdered st"
  "Flags (resolveSection c st) = Flags st"
  "Arguments (resolveSection c st) = Arguments st"
  "Focus (resolveSection c st) = Focus st"
  "Command (resolveSection c st) = Command st"
  "RawLine (resolveSection c st) = RawLine st"
  by (simp_all add: resolveSection_def split: prod.splits)

lemma deref_flag_cong:
  "vars st' = vars st \<Longrightarrow> FlagsOrdered st' = FlagsOrdered st \<Longrightarrow> deref_flag st' = deref_flag st"
  by (auto simp add: deref_flag_def fun_eq_iff split: FlagRef.splits)

lemma deref_node_cong:
  "vars st' = vars st \<Longrightarrow> deref_node st' = deref_node st"
  by (auto simp add: deref_node_def fun_eq_iff split: NodeRef.splits)

lemma resolveSection_Section:
  "map_option (deref_flag st) (Section (resolveSection c st)) =
     (case find (stops c) (rev (FlagsOrdered st)) of
        None \<Rightarrow> map_option (deref_flag st) (Section st)
      | Some f \<Rightarrow>
          if within c f then Some f
          else if Section st = None then Some f
          else map_option (deref_flag st) (Section st))"
proof -
  from sectionWalk_find[of "length (FlagsOrdered st)" "FlagsOrdered st" c "Section st"]
  obtain s cl where w:
    "sectionWalk c (FlagsOrdered st) (int (length (FlagsOrdered st)) - 1) (Section st) = (s, cl)"
    "(case find (stops c) (rev (FlagsOrdered st)) of
        None \<Rightarrow> s = Section st \<and> cl = None
      | Some f \<Rightarrow> \<exists>k<length (FlagsOrdered st). FlagsOrdered st ! k = f \<and>
          (if within c f then s = Some (OrderedElem k) \<and> cl = None
           else s = Section st \<and> cl = Some (OrderedElem k)))"
    by auto
  show ?thesis
  proof (cases "find (stops c) (rev (FlagsOrdered st))")
    case None
    with w show ?thesis by (simp add: resolveSection_def)
  next
    case (Some f)
    with w(2) obtain k where k: "k < length (FlagsOrdered st)" "FlagsOrdered st ! k = f"
      "if within c f then s = Some (OrderedElem k) \<and> cl = None
       else s = Section st \<and> cl = Some (OrderedElem k)"
      by auto
    with w(1) Some show ?thesis
      by (auto simp add: resolveSection_def deref_flag_def)
  qed
qed

definition finish :: "int \<Rightarrow> scan \<Rightarrow> scan" where
  "finish c st = promoteCommand c (resolveSection c (flushCapture st))"

lemma ParseLine_finish:
  "ParseLine line c = map_option (\<lambda>st. result (finish c st)) (ParseLine_loop line c (initial line) 0)"
  by (simp add: ParseLine_def finish_def split: option.splits)

lemma promoteCommand_fields [simp]:
  "vars (promoteCommand c st) = vars st"
  "capture (promoteCommand c st) = capture st"
  "FlagsOrdered (promoteCommand c st) = FlagsOrdered st"
  "Flags (promoteCommand c st) = Flags st"
  "Section (promoteCommand c st) = Section st"
  "RawLine (promoteCommand c st) = RawLine st"
  by (simp_all add: promoteCommand_def Let_def split: list.splits)

lemma promoteCommand_Arguments:
  "Command st = None \<Longrightarrow> Arguments (promoteCommand c st) = tl (Arguments st)"
  by (simp add: promoteCommand_def Let_def split: list.splits)

lemma promoteCommand_Command:
  "Command st = None \<Longrightarrow>
   Command (promoteCommand c st) = (case Arguments st of [] \<Rightarrow> None | a # _ \<Rightarrow> Some a)"
  by (simp add: promoteCommand_def Let_def split: list.splits)

lemma promoteCommand_Focus:
  "Command st = None \<Longrightarrow>
   Focus (promoteCommand c st) =
     (case Arguments st of
        [] \<Rightarrow> Focus st
      | a # _ \<Rightarrow> if within c a then Some (CmdPtr a) else Focus st)"
  by (simp add: promoteCommand_def Let_def within_def split: list.splits)

lemma result_finish:
  assumes "Command st = None"
  shows "FlagsOrdered (result (finish c st)) = FlagsOrdered (flushCapture st)"
    and "Flags (result (finish c st)) = Flags (flushCapture st)"
    and "Arguments (result (finish c st)) = tl (Arguments st)"
    and "Command (result (finish c st)) = (case Arguments st of [] \<Rightarrow> None | a # _ \<Rightarrow> Some a)"
    and "RawLine (result (finish c st)) = RawLine st"
    and "Focus (result (finish c st)) =
           (case Arguments st of
              [] \<Rightarrow> map_option (deref_node st) (Focus st)
            | a # _ \<Rightarrow> if within c a then Some (CmdNode a)
                       else map_option (deref_node st) (Focus st))"
    and "Section (result (finish c st)) =
           (case find (stops c) (rev (FlagsOrdered (flushCapture st))) of
              None \<Rightarrow> map_option (deref_flag (flushCapture st)) (Section st)
            | Some f \<Rightarrow>
                if within c f then Some f
                else if Section st = None then Some f
                else map_option (deref_flag (flushCapture st)) (Section st))"
proof -
  have d: "deref_flag (finish c st) = deref_flag (flushCapture st)"
    by (rule deref_flag_cong) (simp_all add: finish_def)
  have n: "deref_node (finish c st) = deref_node st"
    by (rule deref_node_cong) (simp add: finish_def)
  show "FlagsOrdered (result (finish c st)) = FlagsOrdered (flushCapture st)"
    by (simp add: result_def finish_def)
  show "Flags (result (finish c st)) = Flags (flushCapture st)"
    by (simp add: result_def finish_def)
  show "Arguments (result (finish c st)) = tl (Arguments st)"
    using assms by (simp add: result_def finish_def promoteCommand_Arguments)
  show "Command (result (finish c st)) = (case Arguments st of [] \<Rightarrow> None | a # _ \<Rightarrow> Some a)"
    using assms by (simp add: result_def finish_def promoteCommand_Command)
  show "RawLine (result (finish c st)) = RawLine st"
    by (simp add: result_def finish_def)
  show "Focus (result (finish c st)) =
           (case Arguments st of
              [] \<Rightarrow> map_option (deref_node st) (Focus st)
            | a # _ \<Rightarrow> if within c a then Some (CmdNode a)
                       else map_option (deref_node st) (Focus st))"
    using assms unfolding result_def n
    by (simp add: finish_def promoteCommand_Focus deref_node_def split: list.splits)
  show "Section (result (finish c st)) =
           (case find (stops c) (rev (FlagsOrdered (flushCapture st))) of
              None \<Rightarrow> map_option (deref_flag (flushCapture st)) (Section st)
            | Some f \<Rightarrow>
                if within c f then Some f
                else if Section st = None then Some f
                else map_option (deref_flag (flushCapture st)) (Section st))"
    unfolding result_def d
    using resolveSection_Section[of "flushCapture st" c]
    by (simp add: finish_def cong: option.case_cong if_cong)
qed

lemma node_ok_span: "node_ok (int (length line)) j n \<Longrightarrow> span_within line n"
  by (simp add: node_ok_def span_within_def)

lemma flag_ok_within: "flag_ok (int (length line)) j f \<Longrightarrow> flag_within line f"
  by (auto simp add: flag_ok_def flag_within_def intro: node_ok_span)

lemma find_in_set: "find P xs = Some x \<Longrightarrow> x \<in> set xs \<and> P x"
  by (auto simp add: find_Some_iff)

text \<open>The state the loop ends in, and what \<open>ParseLine\<close> returns from it.\<close>

lemma ParseLine_final:
  obtains st j where "ParseLine_loop line c (initial line) 0 = Some st"
    and "int (length line) \<le> j" and "scan_inv line c st j"
    and "ParseLine line c = Some (result (finish c st))"
proof -
  from ParseLine_loop_inv[of line c] obtain st j where
    l: "ParseLine_loop line c (initial line) 0 = Some st" "int (length line) \<le> j"
       "scan_inv line c st j"
    by blast
  from l(1) have "ParseLine line c = Some (result (finish c st))"
    by (simp add: ParseLine_finish)
  with l that show ?thesis by blast
qed

lemma final_nodes_ok:
  assumes inv: "scan_inv line c st j"
  shows "\<forall>f\<in>set (FlagsOrdered (result (finish c st))). flag_ok (int (length line)) j f"
    and "\<forall>n f. Flags (result (finish c st)) n = Some f \<longrightarrow>
           f \<in> set (FlagsOrdered (result (finish c st))) \<and> value' f = n"
    and "\<forall>a\<in>set (Arguments (result (finish c st))). node_ok (int (length line)) j a"
    and "\<forall>a. Command (result (finish c st)) = Some a \<longrightarrow> node_ok (int (length line)) j a"
    and "\<forall>f. Section (result (finish c st)) = Some f \<longrightarrow> flag_ok (int (length line)) j f"
    and "\<forall>n. Focus (result (finish c st)) = Some n \<longrightarrow>
           Start n \<le> c \<and> c \<le> End n \<and> 0 \<le> Start n \<and> Start n < int (length line)
           \<and> Start n \<le> End n \<and> End n \<le> int (length line)"
proof -
  let ?L = "int (length line)"
  from inv have cn: "Command st = None" by (simp add: scan_inv_def)
  note rf = result_finish[OF cn, of c]
  note finv = flushCapture_inv[OF inv]
  from finv have fo: "\<forall>f\<in>set (FlagsOrdered (flushCapture st)). flag_ok ?L j f"
    by (simp add: scan_inv_def)
  from inv have vo: "\<forall>f\<in>set (vars st). flag_ok ?L j f"
    and ao: "\<forall>a\<in>set (Arguments st). node_ok ?L j a"
    by (simp_all add: scan_inv_def)
  show "\<forall>f\<in>set (FlagsOrdered (result (finish c st))). flag_ok ?L j f"
    using fo by (simp add: rf)
  show "\<forall>n f. Flags (result (finish c st)) n = Some f \<longrightarrow>
           f \<in> set (FlagsOrdered (result (finish c st))) \<and> value' f = n"
    using finv by (simp add: rf scan_inv_def)
  show "\<forall>a\<in>set (Arguments (result (finish c st))). node_ok ?L j a"
    using ao by (cases "Arguments st") (simp_all add: rf)
  show "\<forall>a. Command (result (finish c st)) = Some a \<longrightarrow> node_ok ?L j a"
    using ao by (cases "Arguments st") (simp_all add: rf)
  show "\<forall>f. Section (result (finish c st)) = Some f \<longrightarrow> flag_ok ?L j f"
  proof (intro allI impI)
    fix f assume s: "Section (result (finish c st)) = Some f"
    have d: "\<And>g. map_option (deref_flag (flushCapture st)) (Section st) = Some g \<Longrightarrow> flag_ok ?L j g"
    proof -
      fix g assume "map_option (deref_flag (flushCapture st)) (Section st) = Some g"
      then obtain r where r: "Section st = Some r" "g = deref_flag (flushCapture st) r" by auto
      show "flag_ok ?L j g"
      proof (cases r)
        case (NewFlagVar q)
        with r inv have "q < length (vars st)" by (simp add: scan_inv_def)
        with vo r NewFlagVar show ?thesis by (simp add: deref_flag_def)
      next
        case (OrderedElem k)
        with r inv show ?thesis by (simp add: scan_inv_def)
      qed
    qed
    show "flag_ok ?L j f"
    proof (cases "find (stops c) (rev (FlagsOrdered (flushCapture st)))")
      case None
      with s d show ?thesis by (simp add: rf)
    next
      case (Some g)
      then have "g \<in> set (FlagsOrdered (flushCapture st))" by (auto dest: find_in_set)
      with fo have "flag_ok ?L j g" by simp
      with s d Some show ?thesis by (auto simp add: rf split: if_splits)
    qed
  qed
  show "\<forall>n. Focus (result (finish c st)) = Some n \<longrightarrow>
           Start n \<le> c \<and> c \<le> End n \<and> 0 \<le> Start n \<and> Start n < ?L \<and> Start n \<le> End n \<and> End n \<le> ?L"
  proof (intro allI impI)
    fix n assume f: "Focus (result (finish c st)) = Some n"
    have d: "\<And>m. map_option (deref_node st) (Focus st) = Some m \<Longrightarrow>
                Start m \<le> c \<and> c \<le> End m \<and> 0 \<le> Start m \<and> Start m < ?L \<and> Start m \<le> End m \<and> End m \<le> ?L"
    proof -
      fix m assume m: "map_option (deref_node st) (Focus st) = Some m"
      then obtain r where r: "Focus st = Some r" "m = deref_node st r" by auto
      show "Start m \<le> c \<and> c \<le> End m \<and> 0 \<le> Start m \<and> Start m < ?L \<and> Start m \<le> End m \<and> End m \<le> ?L"
      proof (cases r)
        case (FlagPtr p)
        with r inv have "p < length (vars st)" "within c (vars st ! p)"
          by (simp_all add: scan_inv_def)
        moreover from this vo have "flag_ok ?L j (vars st ! p)" by simp
        ultimately show ?thesis using r FlagPtr
          by (simp add: deref_node_def within_def flag_ok_def node_ok_def)
      next
        case (ArgumentPtr a)
        with r inv have "a \<in> set (Arguments st)" "within c a"
          by (simp_all add: scan_inv_def)
        moreover from this ao have "node_ok ?L j a" by simp
        ultimately show ?thesis using r ArgumentPtr
          by (simp add: deref_node_def within_def node_ok_def)
      next
        case (CmdPtr x)
        with r inv show ?thesis by (simp add: scan_inv_def)
      qed
    qed
    show "Start n \<le> c \<and> c \<le> End n \<and> 0 \<le> Start n \<and> Start n < ?L \<and> Start n \<le> End n \<and> End n \<le> ?L"
    proof (cases "Arguments st")
      case Nil
      with f d show ?thesis by (simp add: rf)
    next
      case (Cons a rest)
      with ao have "node_ok ?L j a" by simp
      with f d Cons show ?thesis
        by (auto simp add: rf within_def node_ok_def split: if_splits)
    qed
  qed
qed

section \<open>The cursor and the structure of the result\<close>

text \<open>
  The cursor decides \<open>Focus\<close> and \<open>Section\<close> only: the flags, the arguments and the command
  of two parses of one line are the same. \<open>skeleton\<close> is the state without its two
  cursor-dependent fields.
\<close>

definition skeleton ::
  "scan \<Rightarrow> Flag list \<times> (string \<rightharpoonup> Flag) \<times> Argument list \<times> Cmd option \<times> string \<times> Flag list \<times> nat option" where
  "skeleton st =
     (FlagsOrdered st, Flags st, Arguments st, Command st, RawLine st, vars st, capture st)"

lemma skeleton_flushCapture:
  "skeleton st = skeleton st' \<Longrightarrow> skeleton (flushCapture st) = skeleton (flushCapture st')"
  by (auto simp add: skeleton_def flushCapture_def split: option.splits)

lemma skeleton_flag_step:
  "skeleton st = skeleton st' \<Longrightarrow>
   skeleton (flag_step line c st i) = skeleton (flag_step line c' st' i)"
  by (frule skeleton_flushCapture) (auto simp add: skeleton_def flag_step_def Let_def)

lemma skeleton_args_step:
  "skeleton st = skeleton st' \<Longrightarrow> skeleton (args_step c st r) = skeleton (args_step c' st' r)"
  by (auto simp add: skeleton_def args_step_def Let_def split: option.splits)

lemma body_args_eq:
  assumes "0 \<le> i" "i < int (length line)" "line ! nat i \<noteq> CHR ''-''"
  shows "ParseLine_body line c st i =
           map_option (\<lambda>(r, e). (args_step c st r, e)) (parseArgs line i)"
  using assms
  by (auto simp add: ParseLine_body_def byte_at_in_range argsBranch_def args_step_def
        fold_focusArg Let_def split: option.splits)

lemma body_negative: "i < 0 \<Longrightarrow> i < int (length line) \<Longrightarrow> ParseLine_body line c st i = None"
  by (simp add: ParseLine_body_def byte_at_def)

lemma skeleton_body:
  assumes "skeleton st = skeleton st'" and "i < int (length line)"
  shows "(ParseLine_body line c st i = None \<and> ParseLine_body line c' st' i = None)
         \<or> (\<exists>s s' e. ParseLine_body line c st i = Some (s, e)
                \<and> ParseLine_body line c' st' i = Some (s', e) \<and> skeleton s = skeleton s')"
proof (cases "i < 0")
  case True
  with assms(2) show ?thesis by (simp add: body_negative)
next
  case False
  then have i0: "0 \<le> i" by simp
  show ?thesis
  proof (cases "line ! nat i = CHR ''-''")
    case True
    then show ?thesis
      using skeleton_flag_step[OF assms(1), of line c i c']
      by (simp add: body_flag[OF i0 assms(2)])
  next
    case False
    then show ?thesis
      using skeleton_args_step[OF assms(1), of c _ c']
      by (cases "parseArgs line i") (auto simp add: body_args_eq[OF i0 assms(2)])
  qed
qed

lemma skeleton_loop:
  "skeleton st = skeleton st' \<Longrightarrow>
   map_option skeleton (ParseLine_loop line c st i) = map_option skeleton (ParseLine_loop line c' st' i)"
proof (induction line c st i arbitrary: st' rule: ParseLine_loop.induct)
  case (1 line c st i)
  show ?case
  proof (cases "i < int (length line)")
    case False
    with 1(2) show ?thesis
      by (simp add: ParseLine_loop.simps[of line c st i] ParseLine_loop.simps[of line c' st' i])
  next
    case True
    from skeleton_body[OF 1(2) True, of c c'] show ?thesis
    proof (elim disjE exE conjE)
      assume "ParseLine_body line c st i = None" "ParseLine_body line c' st' i = None"
      with True show ?thesis
        by (simp add: ParseLine_loop.simps[of line c st i] ParseLine_loop.simps[of line c' st' i])
    next
      fix s s' e
      assume b: "ParseLine_body line c st i = Some (s, e)"
                "ParseLine_body line c' st' i = Some (s', e)" "skeleton s = skeleton s'"
      from 1(1)[OF True b(1) refl b(3)] b(1,2) True show ?thesis
        by (simp add: ParseLine_loop.simps[of line c st i] ParseLine_loop.simps[of line c' st' i])
    qed
  qed
qed

lemma ParseLine_cursor_independent:
  "map_option FlagsOrdered (ParseLine line c) = map_option FlagsOrdered (ParseLine line c')"
  "map_option Flags (ParseLine line c) = map_option Flags (ParseLine line c')"
  "map_option Arguments (ParseLine line c) = map_option Arguments (ParseLine line c')"
  "map_option Command (ParseLine line c) = map_option Command (ParseLine line c')"
  "map_option RawLine (ParseLine line c) = map_option RawLine (ParseLine line c')"
proof -
  from skeleton_loop[of "initial line" "initial line" line c 0 c']
  have l: "map_option skeleton (ParseLine_loop line c (initial line) 0)
             = map_option skeleton (ParseLine_loop line c' (initial line) 0)"
    by simp
  have k: "\<And>st st'. skeleton st = skeleton st' \<Longrightarrow>
             FlagsOrdered (result (finish c st)) = FlagsOrdered (result (finish c' st'))
             \<and> Flags (result (finish c st)) = Flags (result (finish c' st'))
             \<and> Arguments (result (finish c st)) = Arguments (result (finish c' st'))
             \<and> Command (result (finish c st)) = Command (result (finish c' st'))
             \<and> RawLine (result (finish c st)) = RawLine (result (finish c' st'))"
  proof -
    fix st st' assume s: "skeleton st = skeleton st'"
    from skeleton_flushCapture[OF s] s show "?thesis st st'"
      by (auto simp add: result_def finish_def skeleton_def promoteCommand_def Let_def
               split: list.splits)
  qed
  show "map_option FlagsOrdered (ParseLine line c) = map_option FlagsOrdered (ParseLine line c')"
    using l k by (cases "ParseLine_loop line c (initial line) 0";
                  cases "ParseLine_loop line c' (initial line) 0") (simp_all add: ParseLine_finish)
  show "map_option Flags (ParseLine line c) = map_option Flags (ParseLine line c')"
    using l k by (cases "ParseLine_loop line c (initial line) 0";
                  cases "ParseLine_loop line c' (initial line) 0") (simp_all add: ParseLine_finish)
  show "map_option Arguments (ParseLine line c) = map_option Arguments (ParseLine line c')"
    using l k by (cases "ParseLine_loop line c (initial line) 0";
                  cases "ParseLine_loop line c' (initial line) 0") (simp_all add: ParseLine_finish)
  show "map_option Command (ParseLine line c) = map_option Command (ParseLine line c')"
    using l k by (cases "ParseLine_loop line c (initial line) 0";
                  cases "ParseLine_loop line c' (initial line) 0") (simp_all add: ParseLine_finish)
  show "map_option RawLine (ParseLine line c) = map_option RawLine (ParseLine line c')"
    using l k by (cases "ParseLine_loop line c (initial line) 0";
                  cases "ParseLine_loop line c' (initial line) 0") (simp_all add: ParseLine_finish)
qed


lemma bundle_at_0:
  "map_option FlagsOrdered (ParseLine ''-aft value'' 0)
     = Some [\<lparr>start = 0, end' = 4, value' = ''a'', Args = [], long = False\<rparr>,
             \<lparr>start = 0, end' = 4, value' = ''f'', Args = [], long = False\<rparr>,
             \<lparr>start = 0, end' = 4, value' = ''t'', Args = [], long = False\<rparr>]"
  "map_option (\<lambda>pl. (Flags pl ''a'', Flags pl ''f'', Flags pl ''t'')) (ParseLine ''-aft value'' 0)
     = Some (Some \<lparr>start = 0, end' = 4, value' = ''a'', Args = [], long = False\<rparr>,
             Some \<lparr>start = 0, end' = 4, value' = ''f'', Args = [], long = False\<rparr>,
             Some \<lparr>start = 0, end' = 4, value' = ''t'', Args = [], long = False\<rparr>)"
  "map_option Command (ParseLine ''-aft value'' 0)
     = Some (Some \<lparr>start = 5, end' = 10, value' = ''value''\<rparr>)"
  "map_option Arguments (ParseLine ''-aft value'' 0) = Some []"
  by code_simp+

section \<open>Further invariants of the scan\<close>

text \<open>
  \<open>args_inv\<close>: the values of the top-level arguments, followed by the argument tokens
  still to be scanned, are the argument tokens of the line; and the arguments of every
  flag are a run of the top-level arguments. \<open>order_inv\<close>: the flags of the slice are in
  the order of their ends, the capturing flag after them. \<open>run_inv\<close>: an argument run
  is scanned for a capturing flag that has no arguments yet. \<open>owner_inv\<close>: how \<open>Section\<close>,
  \<open>Focus\<close> and the arguments the cursor lies within hang together.
\<close>

definition args_inv :: "string \<Rightarrow> scan \<Rightarrow> int \<Rightarrow> bool" where
  "args_inv line st i \<longleftrightarrow>
     map value' (Arguments st) @ map string_of_bytes (arg_tokens (drop (nat i) line))
       = map string_of_bytes (arg_tokens line)
     \<and> (\<forall>f\<in>set (vars st) \<union> set (FlagsOrdered st). sublist (Args f) (Arguments st))"

lemma sublist_append_right: "sublist xs ys \<Longrightarrow> sublist xs (ys @ zs)"
proof -
  assume "sublist xs ys"
  then obtain ps ss where "ys = ps @ xs @ ss" by (auto simp add: sublist_def)
  then have "ys @ zs = ps @ xs @ (ss @ zs)" by simp
  then show ?thesis unfolding sublist_def by blast
qed

lemma initial_args_inv: "args_inv line (initial line) 0"
  by (simp add: args_inv_def initial_def)

lemma flag_step_args_inv:
  assumes inv: "scan_inv line c st i" and a: "args_inv line st i"
      and lt: "i < int (length line)" and d: "line ! nat i = CHR ''-''"
  shows "args_inv line (flag_step line c st i) (end_at line i + 1)"
proof -
  from inv have i0: "0 \<le> i" and cp: "\<forall>p. capture st = Some p \<longrightarrow> p < length (vars st)"
    by (simp_all add: scan_inv_def)
  have t: "arg_tokens (drop (nat i) line) = arg_tokens (drop (nat (end_at line i + 1)) line)"
    using i0 lt d by (rule flag_tokens_step)
  have fo: "set (FlagsOrdered (flushCapture st)) \<subseteq> set (FlagsOrdered st) \<union> set (vars st)"
    using cp by (auto simp add: flushCapture_FlagsOrdered split: option.splits)
  have sub: "\<forall>f\<in>set (vars st) \<union> set (FlagsOrdered (flushCapture st)).
               sublist (Args f) (Arguments st)"
    using a fo by (auto simp add: args_inv_def)
  show ?thesis
    unfolding args_inv_def flag_step_def Let_def
    using a sub by (auto simp add: t args_inv_def bundled_def)
qed

lemma args_step_args_inv:
  assumes inv: "scan_inv line c st i" and a: "args_inv line st i"
      and t: "map value' r @ map string_of_bytes (arg_tokens (drop (nat (e + 1)) line))
               = map string_of_bytes (arg_tokens (drop (nat i) line))"
  shows "args_inv line (args_step c st r) (e + 1)"
proof -
  from inv have cp: "\<forall>p. capture st = Some p \<longrightarrow> p < length (vars st)"
    by (simp add: scan_inv_def)
  have tk: "map value' (Arguments st @ r) @ map string_of_bytes (arg_tokens (drop (nat (e + 1)) line))
              = map string_of_bytes (arg_tokens line)"
    using a t by (simp add: args_inv_def)
  have old: "\<forall>f\<in>set (vars st) \<union> set (FlagsOrdered st). sublist (Args f) (Arguments st @ r)"
    using a by (auto simp add: args_inv_def intro: sublist_append_right)
  have upd: "\<And>p. \<forall>f\<in>set ((vars st)[p := (vars st ! p)\<lparr>Args := r\<rparr>]).
                 sublist (Args f) (Arguments st @ r)"
  proof
    fix p f assume "f \<in> set ((vars st)[p := (vars st ! p)\<lparr>Args := r\<rparr>])"
    then have "f = (vars st ! p)\<lparr>Args := r\<rparr> \<or> f \<in> set (vars st)"
      using set_update_subset_insert[of "vars st" p] by auto
    with old show "sublist (Args f) (Arguments st @ r)" by auto
  qed
  show ?thesis
  proof (cases "capture st")
    case None
    then show ?thesis
      unfolding args_inv_def args_step_def Let_def using tk old by auto
  next
    case (Some p)
    then show ?thesis
      unfolding args_inv_def args_step_def Let_def using tk old upd[of p] by auto
  qed
qed


lemma scan_inv_before:
  assumes "scan_inv line c st i" and "i < int (length line)"
  shows "\<forall>f\<in>set (vars st). end' f < i \<and> (\<forall>a\<in>set (Args f). end' a < i)"
    and "\<forall>f\<in>set (FlagsOrdered st). end' f < i \<and> (\<forall>a\<in>set (Args f). end' a < i)"
    and "\<forall>a\<in>set (Arguments st). end' a < i"
  using assms by (auto simp add: scan_inv_def flag_ok_def node_ok_def)

lemma scan_inv_pointers:
  assumes "scan_inv line c st i"
  shows "\<forall>p. capture st = Some p \<longrightarrow> p < length (vars st)"
    and "\<forall>p. Section st = Some (NewFlagVar p) \<longrightarrow> p < length (vars st)"
    and "\<forall>p. Focus st = Some (FlagPtr p) \<longrightarrow> p < length (vars st)"
    and "0 \<le> i"
  using assms by (auto simp add: scan_inv_def)

definition order_inv :: "scan \<Rightarrow> bool" where
  "order_inv st \<longleftrightarrow>
     sorted_wrt (\<lambda>f g. end' f \<le> end' g) (FlagsOrdered st)
     \<and> (\<forall>p. capture st = Some p \<longrightarrow> (\<forall>f\<in>set (FlagsOrdered st). end' f \<le> end' (vars st ! p)))"

lemma flushCapture_sorted:
  assumes "order_inv st"
  shows "sorted_wrt (\<lambda>f g. end' f \<le> end' g) (FlagsOrdered (flushCapture st))"
  using assms
  by (auto simp add: order_inv_def flushCapture_def sorted_wrt_append split: option.splits)

lemma flag_step_order_inv:
  assumes inv: "scan_inv line c st i" and o: "order_inv st" and lt: "i < int (length line)"
  shows "order_inv (flag_step line c st i)"
proof -
  note b = scan_inv_before[OF inv lt]
  note p = scan_inv_pointers[OF inv]
  have fb: "\<forall>f\<in>set (FlagsOrdered (flushCapture st)). end' f < i"
    using b(1,2) p(1) by (auto simp add: flushCapture_FlagsOrdered split: option.splits)
  have e: "i \<le> end_at line i" using end_at_bounds(1)[OF p(4) lt] .
  have s: "sorted_wrt (\<lambda>f g. end' f \<le> end' g) (FlagsOrdered (flushCapture st))"
    using o by (rule flushCapture_sorted)
  have sb: "sorted_wrt (\<lambda>f g. end' f \<le> end' g)
              (FlagsOrdered (flushCapture st) @ map (bundled i (end_at line i)) cs)" for cs
  proof -
    have "sorted_wrt (\<lambda>f g. end' f \<le> end' g) (map (bundled i (end_at line i)) cs)"
      by (simp add: sorted_wrt_map bundled_def)
    moreover have "\<forall>f\<in>set (FlagsOrdered (flushCapture st)).
                     \<forall>g\<in>set (map (bundled i (end_at line i)) cs). end' f \<le> end' g"
      using fb e by (auto simp add: bundled_def)
    ultimately show ?thesis using s by (simp add: sorted_wrt_append)
  qed
  have n: "\<forall>f\<in>set (FlagsOrdered (flushCapture st)). end' f \<le> end' (flag_at line i)"
    using fb by auto
  show ?thesis
    unfolding order_inv_def flag_step_def Let_def
    using s sb n by (auto simp add: nth_append)
qed

lemma args_step_order_inv:
  assumes inv: "scan_inv line c st i" and o: "order_inv st"
  shows "order_inv (args_step c st r)"
proof -
  note p = scan_inv_pointers[OF inv]
  show ?thesis
    unfolding order_inv_def args_step_def Let_def
    using o p(1) by (auto simp add: order_inv_def nth_list_update split: option.splits)
qed

definition run_inv :: "string \<Rightarrow> scan \<Rightarrow> int \<Rightarrow> bool" where
  "run_inv line st i \<longleftrightarrow>
     (i < int (length line) \<and> line ! nat i \<noteq> CHR ''-'' \<longrightarrow>
        (\<forall>p. capture st = Some p \<longrightarrow> Args (vars st ! p) = []))"

lemma flag_step_run_inv: "run_inv line (flag_step line c st i) j"
  unfolding run_inv_def flag_step_def Let_def by (auto simp add: nth_append)

lemma args_step_run_inv:
  "e + 1 < int (length line) \<longrightarrow> line ! nat (e + 1) = CHR ''-'' \<Longrightarrow>
   run_inv line (args_step c st r) (e + 1)"
  by (auto simp add: run_inv_def)


definition owner_inv :: "int \<Rightarrow> scan \<Rightarrow> bool" where
  "owner_inv c st \<longleftrightarrow>
     (\<forall>q<length (vars st). owns c (vars st ! q) \<longrightarrow> Section st = Some (NewFlagVar q))
     \<and> (\<forall>g\<in>set (FlagsOrdered st). owns c g \<longrightarrow>
           (\<exists>q<length (vars st). vars st ! q = g \<and> Section st = Some (NewFlagVar q)
                \<and> capture st \<noteq> Some q))
     \<and> (\<forall>q. Section st = Some (NewFlagVar q) \<longrightarrow>
           Focus st = Some (FlagPtr q)
           \<or> (owns c (vars st ! q) \<and> (capture st = Some q \<or> vars st ! q \<in> set (FlagsOrdered st))))
     \<and> (\<forall>q. Focus st = Some (FlagPtr q) \<longrightarrow>
           Section st = Some (NewFlagVar q) \<and> (\<forall>a\<in>set (Arguments st). \<not> within c a))"

lemma flag_step_fields:
  "vars (flag_step line c st i) = vars st @ [flag_at line i]"
  "Arguments (flag_step line c st i) = Arguments st"
  "Command (flag_step line c st i) = Command st"
  "Focus (flag_step line c st i) =
     (if within c (flag_at line i) then Some (FlagPtr (length (vars st))) else Focus st)"
  "Section (flag_step line c st i) =
     (if within c (flag_at line i) then Some (NewFlagVar (length (vars st))) else Section st)"
  "capture (flag_step line c st i) =
     (if long (flag_at line i) \<or> length (value' (flag_at line i)) = 1
      then Some (length (vars st)) else None)"
  "FlagsOrdered (flag_step line c st i) =
     FlagsOrdered (flushCapture st)
     @ (if long (flag_at line i) \<or> length (value' (flag_at line i)) = 1 then []
        else map (bundled i (end_at line i)) (range_strings (value' (flag_at line i))))"
  by (simp_all add: flag_step_def Let_def)

lemma args_step_fields:
  "vars (args_step c st r) =
     (case capture st of None \<Rightarrow> vars st | Some p \<Rightarrow> (vars st)[p := (vars st ! p)\<lparr>Args := r\<rparr>])"
  "Arguments (args_step c st r) = Arguments st @ r"
  "Command (args_step c st r) = Command st"
  "capture (args_step c st r) = capture st"
  "FlagsOrdered (args_step c st r) = FlagsOrdered st"
  "Flags (args_step c st r) = Flags st"
  "Focus (args_step c st r) =
     (if \<exists>a\<in>set r. within c a then Some (ArgumentPtr (last (filter (within c) r))) else Focus st)"
  "Section (args_step c st r) =
     (if \<exists>a\<in>set r. within c a then map_option NewFlagVar (capture st) else Section st)"
  by (auto simp add: args_step_def Let_def split: option.splits)

lemma owns_bundled [simp]: "\<not> owns c (bundled s e n)"
  by (simp add: owns_def bundled_def)

lemma owns_flag_at [simp]: "\<not> owns c (flag_at line i)"
  by (simp add: owns_def)

lemma flag_step_owner_inv:
  assumes inv: "scan_inv line c st i" and o: "owner_inv c st" and lt: "i < int (length line)"
  shows "owner_inv c (flag_step line c st i)"
proof -
  note b = scan_inv_before[OF inv lt]
  note p = scan_inv_pointers[OF inv]
  let ?n = "length (vars st)"
  let ?nf = "flag_at line i"
  let ?st = "flag_step line c st i"
  note f = flag_step_fields[of line c st i]
  have old: "vars ?st ! q = vars st ! q" if "q < ?n" for q
    using that by (simp add: f nth_append)
  have new: "vars ?st ! ?n = ?nf" by (simp add: f)
  have capn: "capture ?st \<noteq> Some q" if "q < ?n" for q
    using that by (simp add: f)
  have fo: "g \<in> set (FlagsOrdered ?st) \<Longrightarrow> owns c g \<Longrightarrow>
              g \<in> set (FlagsOrdered st) \<or> (\<exists>p<?n. capture st = Some p \<and> g = vars st ! p)" for g
    using p(1) by (auto simp add: f flushCapture_FlagsOrdered split: option.splits if_splits)
  have fo': "g \<in> set (FlagsOrdered st) \<Longrightarrow> g \<in> set (FlagsOrdered ?st)" for g
    by (simp add: f flushCapture_FlagsOrdered)
  have fo'': "capture st = Some q \<Longrightarrow> vars st ! q \<in> set (FlagsOrdered ?st)" for q
    by (simp add: f flushCapture_FlagsOrdered)
  show ?thesis
  proof (cases "within c ?nf")
    case True
    then have ic: "i \<le> c" by (simp add: within_def)
    have no_v: "\<not> owns c (vars st ! q)" if "q < ?n" for q
      using b(1) that ic by (fastforce simp add: owns_def within_def)
    have no_o: "\<not> owns c g" if "g \<in> set (FlagsOrdered st)" for g
      using b(2) that ic by (fastforce simp add: owns_def within_def)
    have no_a: "\<forall>a\<in>set (Arguments st). \<not> within c a"
      using b(3) ic by (fastforce simp add: within_def)
    have k1: "\<forall>q<length (vars ?st). owns c (vars ?st ! q) \<longrightarrow> Section ?st = Some (NewFlagVar q)"
    proof (intro allI impI)
      fix q assume "q < length (vars ?st)" "owns c (vars ?st ! q)"
      then show "Section ?st = Some (NewFlagVar q)"
        using no_v[of q] old[of q] new by (cases "q < ?n") (auto simp add: f less_Suc_eq)
    qed
    have k2: "\<forall>g\<in>set (FlagsOrdered ?st). owns c g \<longrightarrow>
           (\<exists>q<length (vars ?st). vars ?st ! q = g \<and> Section ?st = Some (NewFlagVar q)
                \<and> capture ?st \<noteq> Some q)"
      using fo no_o no_v by blast
    have m: "\<forall>q. Section ?st = Some (NewFlagVar q) \<longrightarrow>
           Focus ?st = Some (FlagPtr q)
           \<or> (owns c (vars ?st ! q) \<and> (capture ?st = Some q \<or> vars ?st ! q \<in> set (FlagsOrdered ?st)))"
      using True by (simp add: f)
    have n: "\<forall>q. Focus ?st = Some (FlagPtr q) \<longrightarrow>
           Section ?st = Some (NewFlagVar q) \<and> (\<forall>a\<in>set (Arguments ?st). \<not> within c a)"
      using True no_a by (simp add: f)
    from k1 k2 m n show ?thesis unfolding owner_inv_def by blast
  next
    case False
    have sec: "Section ?st = Section st" and foc: "Focus ?st = Focus st"
      using False by (simp_all add: f)
    have k1: "\<forall>q<length (vars ?st). owns c (vars ?st ! q) \<longrightarrow> Section ?st = Some (NewFlagVar q)"
    proof (intro allI impI)
      fix q assume q: "q < length (vars ?st)" "owns c (vars ?st ! q)"
      show "Section ?st = Some (NewFlagVar q)"
      proof (cases "q < ?n")
        case True
        with q o show ?thesis by (simp add: sec old owner_inv_def)
      next
        case False
        with q have "q = ?n" by (simp add: f)
        with q new show ?thesis by simp
      qed
    qed
    have k2: "\<forall>g\<in>set (FlagsOrdered ?st). owns c g \<longrightarrow>
           (\<exists>q<length (vars ?st). vars ?st ! q = g \<and> Section ?st = Some (NewFlagVar q)
                \<and> capture ?st \<noteq> Some q)"
    proof (intro ballI impI)
      fix g assume g: "g \<in> set (FlagsOrdered ?st)" "owns c g"
      from fo[OF g] have "\<exists>q<?n. vars st ! q = g \<and> Section st = Some (NewFlagVar q)"
      proof
        assume "g \<in> set (FlagsOrdered st)"
        with g(2) o show ?thesis unfolding owner_inv_def by blast
      next
        assume "\<exists>p<?n. capture st = Some p \<and> g = vars st ! p"
        then obtain p where "p < ?n" "g = vars st ! p" by blast
        with g(2) o show ?thesis unfolding owner_inv_def by blast
      qed
      then obtain q where q: "q < ?n" "vars st ! q = g" "Section st = Some (NewFlagVar q)" by blast
      then have "q < length (vars ?st)" "vars ?st ! q = g" "Section ?st = Some (NewFlagVar q)"
        "capture ?st \<noteq> Some q"
        using old[of q] capn[of q] by (simp_all add: sec f)
      then show "\<exists>q<length (vars ?st). vars ?st ! q = g \<and> Section ?st = Some (NewFlagVar q)
                \<and> capture ?st \<noteq> Some q" by blast
    qed
    have m: "\<forall>q. Section ?st = Some (NewFlagVar q) \<longrightarrow>
           Focus ?st = Some (FlagPtr q)
           \<or> (owns c (vars ?st ! q) \<and> (capture ?st = Some q \<or> vars ?st ! q \<in> set (FlagsOrdered ?st)))"
    proof (intro allI impI)
      fix q assume s: "Section ?st = Some (NewFlagVar q)"
      then have s': "Section st = Some (NewFlagVar q)" by (simp add: sec)
      with p(2) have qn: "q < ?n" by simp
      from s' o have "Focus st = Some (FlagPtr q)
           \<or> (owns c (vars st ! q) \<and> (capture st = Some q \<or> vars st ! q \<in> set (FlagsOrdered st)))"
        unfolding owner_inv_def by blast
      then show "Focus ?st = Some (FlagPtr q)
           \<or> (owns c (vars ?st ! q) \<and> (capture ?st = Some q \<or> vars ?st ! q \<in> set (FlagsOrdered ?st)))"
        using old[OF qn] fo' fo''[of q] by (auto simp add: foc)
    qed
    have n: "\<forall>q. Focus ?st = Some (FlagPtr q) \<longrightarrow>
           Section ?st = Some (NewFlagVar q) \<and> (\<forall>a\<in>set (Arguments ?st). \<not> within c a)"
      using o by (simp add: sec foc f owner_inv_def)
    from k1 k2 m n show ?thesis unfolding owner_inv_def by blast
  qed
qed


lemma args_step_owner_inv:
  assumes inv: "scan_inv line c st i" and o: "owner_inv c st" and t: "run_inv line st i"
      and lt: "i < int (length line)" and nd: "line ! nat i \<noteq> CHR ''-''"
      and r: "\<forall>a\<in>set r. i \<le> start a"
  shows "owner_inv c (args_step c st r)"
proof -
  note b = scan_inv_before[OF inv lt]
  note p = scan_inv_pointers[OF inv]
  let ?n = "length (vars st)"
  let ?st = "args_step c st r"
  note f = args_step_fields[of c st r]
  have len: "length (vars ?st) = ?n" by (simp add: f split: option.splits)
  have cap: "vars ?st ! q = (vars st ! q)\<lparr>Args := r\<rparr>" if "capture st = Some q" for q
    using that p(1) by (simp add: f)
  have ncap: "vars ?st ! q = vars st ! q" if "capture st \<noteq> Some q" for q
    using that by (cases "capture st") (simp_all add: f)
  have empty: "Args (vars st ! q) = []" if "capture st = Some q" for q
    using t lt nd that by (simp add: run_inv_def)
  show ?thesis
  proof (cases "\<exists>a\<in>set r. within c a")
    case True
    then have ic: "i \<le> c" using r by (fastforce simp add: within_def)
    have sec: "Section ?st = map_option NewFlagVar (capture st)"
      and foc: "Focus ?st = Some (ArgumentPtr (last (filter (within c) r)))"
      using True by (simp_all add: f)
    have no_v: "\<not> owns c (vars st ! q)" if "q < ?n" for q
      using b(1) that ic by (fastforce simp add: owns_def within_def)
    have no_o: "\<not> owns c g" if "g \<in> set (FlagsOrdered st)" for g
      using b(2) that ic by (fastforce simp add: owns_def within_def)
    have k1: "\<forall>q<length (vars ?st). owns c (vars ?st ! q) \<longrightarrow> Section ?st = Some (NewFlagVar q)"
    proof (intro allI impI)
      fix q assume q: "q < length (vars ?st)" "owns c (vars ?st ! q)"
      show "Section ?st = Some (NewFlagVar q)"
      proof (cases "capture st = Some q")
        case True
        then show ?thesis by (simp add: sec)
      next
        case False
        with q no_v[of q] show ?thesis by (simp add: ncap len)
      qed
    qed
    have k2: "\<forall>g\<in>set (FlagsOrdered ?st). owns c g \<longrightarrow>
           (\<exists>q<length (vars ?st). vars ?st ! q = g \<and> Section ?st = Some (NewFlagVar q)
                \<and> capture ?st \<noteq> Some q)"
      using no_o by (simp add: f)
    have m: "\<forall>q. Section ?st = Some (NewFlagVar q) \<longrightarrow>
           Focus ?st = Some (FlagPtr q)
           \<or> (owns c (vars ?st ! q) \<and> (capture ?st = Some q \<or> vars ?st ! q \<in> set (FlagsOrdered ?st)))"
    proof (intro allI impI)
      fix q assume "Section ?st = Some (NewFlagVar q)"
      then have c: "capture st = Some q" by (auto simp add: sec)
      then have "owns c (vars ?st ! q)" using True by (simp add: cap owns_def)
      with c show "Focus ?st = Some (FlagPtr q)
           \<or> (owns c (vars ?st ! q) \<and> (capture ?st = Some q \<or> vars ?st ! q \<in> set (FlagsOrdered ?st)))"
        by (simp add: f(4))
    qed
    have n: "\<forall>q. Focus ?st = Some (FlagPtr q) \<longrightarrow>
           Section ?st = Some (NewFlagVar q) \<and> (\<forall>a\<in>set (Arguments ?st). \<not> within c a)"
      by (simp add: foc)
    from k1 k2 m n show ?thesis unfolding owner_inv_def by blast
  next
    case False
    have sec: "Section ?st = Section st" and foc: "Focus ?st = Focus st"
      using False by (simp_all add: f)
    have k1: "\<forall>q<length (vars ?st). owns c (vars ?st ! q) \<longrightarrow> Section ?st = Some (NewFlagVar q)"
    proof (intro allI impI)
      fix q assume q: "q < length (vars ?st)" "owns c (vars ?st ! q)"
      show "Section ?st = Some (NewFlagVar q)"
      proof (cases "capture st = Some q")
        case True
        with q(2) False show ?thesis by (simp add: cap owns_def)
      next
        case False
        with q o show ?thesis by (simp add: sec ncap len owner_inv_def)
      qed
    qed
    have k2: "\<forall>g\<in>set (FlagsOrdered ?st). owns c g \<longrightarrow>
           (\<exists>q<length (vars ?st). vars ?st ! q = g \<and> Section ?st = Some (NewFlagVar q)
                \<and> capture ?st \<noteq> Some q)"
    proof (intro ballI impI)
      fix g assume g: "g \<in> set (FlagsOrdered ?st)" "owns c g"
      with o obtain q where q: "q < ?n" "vars st ! q = g" "Section st = Some (NewFlagVar q)"
          "capture st \<noteq> Some q"
        unfolding owner_inv_def by (auto simp add: f(5))
      then have "q < length (vars ?st)" "vars ?st ! q = g" "Section ?st = Some (NewFlagVar q)"
          "capture ?st \<noteq> Some q"
        by (simp_all add: len ncap sec f(4))
      then show "\<exists>q<length (vars ?st). vars ?st ! q = g \<and> Section ?st = Some (NewFlagVar q)
                \<and> capture ?st \<noteq> Some q" by blast
    qed
    have m: "\<forall>q. Section ?st = Some (NewFlagVar q) \<longrightarrow>
           Focus ?st = Some (FlagPtr q)
           \<or> (owns c (vars ?st ! q) \<and> (capture ?st = Some q \<or> vars ?st ! q \<in> set (FlagsOrdered ?st)))"
    proof (intro allI impI)
      fix q assume "Section ?st = Some (NewFlagVar q)"
      then have s': "Section st = Some (NewFlagVar q)" by (simp add: sec)
      with o have d: "Focus st = Some (FlagPtr q)
           \<or> (owns c (vars st ! q) \<and> (capture st = Some q \<or> vars st ! q \<in> set (FlagsOrdered st)))"
        unfolding owner_inv_def by blast
      show "Focus ?st = Some (FlagPtr q)
           \<or> (owns c (vars ?st ! q) \<and> (capture ?st = Some q \<or> vars ?st ! q \<in> set (FlagsOrdered ?st)))"
      proof (cases "capture st = Some q")
        case True
        with empty[of q] have "\<not> owns c (vars st ! q)" by (simp add: owns_def)
        with d show ?thesis by (simp add: foc)
      next
        case False
        with d show ?thesis by (auto simp add: foc ncap f(4,5))
      qed
    qed
    have n: "\<forall>q. Focus ?st = Some (FlagPtr q) \<longrightarrow>
           Section ?st = Some (NewFlagVar q) \<and> (\<forall>a\<in>set (Arguments ?st). \<not> within c a)"
      using o False by (auto simp add: sec foc f(2) owner_inv_def)
    from k1 k2 m n show ?thesis unfolding owner_inv_def by blast
  qed
qed

section \<open>The parse, told from the tokens\<close>

text \<open>
  What \<open>ParseLine\<close> builds, said in terms of the tokens of the line alone.
  \<open>located_tokens line\<close> are the tokens of the line, each with the offset of its first
  byte. \<open>arg_of\<close> is the argument node of a token: it starts at the token's offset, ends
  one past its last byte, and its value is the token, each byte \<open>b\<close> written as
  \<open>string(b)\<close>. \<open>flag_of\<close> is the flag node of a flag token, without arguments: its
  value is made in the same way from the bytes after the leading dashes. A flag is
  \<open>capturing\<close> when it is long or its value is one byte long. \<open>flags_of\<close> lists the
  flags of a line: a capturing flag, with the argument tokens that follow it up to the
  next flag token (or the end of the line) as its \<open>Args\<close>; for any other flag token,
  one flag without arguments for each code point of its value, all with the span the
  scan of the token returns.
\<close>

function tokens_from :: "int \<Rightarrow> string \<Rightarrow> (int \<times> string) list" where
  "tokens_from p [] = []"
| "tokens_from p (c # cs) =
     (if c = CHR '' '' then tokens_from (p + 1) cs
      else (p, takeWhile (\<lambda>x. x \<noteq> CHR '' '') (c # cs))
             # tokens_from (p + int (length (takeWhile (\<lambda>x. x \<noteq> CHR '' '') (c # cs))))
                 (dropWhile (\<lambda>x. x \<noteq> CHR '' '') (c # cs)))"
  by pat_completeness auto
termination
  by (relation "measure (\<lambda>(p, s). length s)") (auto simp add: less_Suc_eq_le length_dropWhile_le)

definition located_tokens :: "string \<Rightarrow> (int \<times> string) list" where
  "located_tokens line = tokens_from 0 line"

definition tokens_after :: "string \<Rightarrow> int \<Rightarrow> (int \<times> string) list" where
  "tokens_after line p = tokens_from p (drop (nat p) line)"

definition arg_of :: "int \<times> string \<Rightarrow> Argument" where
  "arg_of x = \<lparr>start = fst x, end' = fst x + int (length (snd x)), value' = string_of_bytes (snd x)\<rparr>"

definition flag_of :: "int \<times> string \<Rightarrow> Flag" where
  "flag_of x =
     \<lparr>start = fst x, end' = fst x + int (length (snd x)),
      value' = string_of_bytes (dropWhile (\<lambda>c. c = CHR ''-'') (snd x)),
      Args = [],
      long = (2 \<le> length (takeWhile (\<lambda>c. c = CHR ''-'') (snd x))
              \<and> dropWhile (\<lambda>c. c = CHR ''-'') (snd x) \<noteq> [])\<rparr>"

definition is_arg :: "int \<times> string \<Rightarrow> bool" where
  "is_arg x = (\<not> is_flag_token (snd x))"

definition capturing :: "Flag \<Rightarrow> bool" where
  "capturing f = (long f \<or> length (value' f) = 1)"

fun flags_of :: "int \<Rightarrow> (int \<times> string) list \<Rightarrow> Flag list" where
  "flags_of L [] = []"
| "flags_of L (x # xs) =
     (if is_flag_token (snd x) then
        (if capturing (flag_of x)
         then [(flag_of x)\<lparr>Args := map arg_of (takeWhile is_arg xs)\<rparr>]
         else map (bundled (fst x)
                     (if fst x + int (length (snd x)) < L then fst x + int (length (snd x)) else L - 1))
                  (range_strings (value' (flag_of x))))
        @ flags_of L xs
      else flags_of L xs)"

lemma tokens_from_snd: "map snd (tokens_from p s) = tokens s"
  by (induction p s rule: tokens_from.induct) simp_all

lemma located_tokens_tokens: "map snd (located_tokens line) = tokens line"
  by (simp add: located_tokens_def tokens_from_snd)

lemma tokens_after_0: "tokens_after line 0 = located_tokens line"
  by (simp add: tokens_after_def located_tokens_def)

lemma tokens_after_outside: "int (length line) \<le> p \<Longrightarrow> tokens_after line p = []"
  by (simp add: tokens_after_def)

lemma tokens_after_space:
  "0 \<le> p \<Longrightarrow> p < int (length line) \<Longrightarrow> line ! nat p = CHR '' '' \<Longrightarrow>
   tokens_after line p = tokens_after line (p + 1)"
  by (simp add: tokens_after_def drop_at_offset)

lemma tokens_after_step:
  assumes "0 \<le> p" "p < int (length line)"
  shows "tokens_after line p =
           (if token_at line p = [] then [] else [(p, token_at line p)])
           @ tokens_after line (end_at line p + 1)"
proof (cases "line ! nat p = CHR '' ''")
  case True
  with assms have "token_at line p = []" by (simp add: token_at_space)
  moreover from this assms have "end_at line p = p" by (simp add: end_at_def)
  ultimately show ?thesis using assms True by (simp add: tokens_after_space)
next
  case False
  let ?q = "p + int (length (token_at line p))"
  from False assms have ne: "token_at line p \<noteq> []" by (simp add: token_at_nonempty)
  from assms False have
    "tokens_after line p =
       (p, token_at line p) # tokens_from ?q (dropWhile (\<lambda>x. x \<noteq> CHR '' '') (drop (nat p) line))"
    by (simp add: tokens_after_def drop_at_offset[of p line] token_at_def)
  also have "dropWhile (\<lambda>x. x \<noteq> CHR '' '') (drop (nat p) line) = drop (nat ?q) line"
    using assms by (simp add: drop_token)
  also have "tokens_from ?q (drop (nat ?q) line) = tokens_after line (end_at line p + 1)"
  proof (cases "?q < int (length line)")
    case True
    then show ?thesis
      using assms token_end_is_space[of p line] tokens_after_space[of ?q line]
      by (simp add: end_at_def tokens_after_def)
  next
    case False
    then show ?thesis by (simp add: end_at_def tokens_after_def)
  qed
  finally show ?thesis using ne by simp
qed

lemma tokens_after_flag:
  assumes "0 \<le> p" "p < int (length line)" "line ! nat p = CHR ''-''"
  shows "tokens_after line p = (p, token_at line p) # tokens_after line (end_at line p + 1)"
    and "is_flag_token (token_at line p)"
proof -
  from assms have t: "token_at line p = line ! nat p # token_at line (p + 1)"
    by (simp add: token_at_step)
  with assms show "is_flag_token (token_at line p)" by (simp add: is_flag_token_def)
  from t show "tokens_after line p = (p, token_at line p) # tokens_after line (end_at line p + 1)"
    using tokens_after_step[OF assms(1,2)] by simp
qed

lemma tokens_after_arg:
  assumes "0 \<le> p" "p < int (length line)" "line ! nat p \<noteq> CHR ''-''"
  shows "\<not> is_flag_token (token_at line p)"
proof (cases "line ! nat p = CHR '' ''")
  case True
  with assms show ?thesis by (simp add: token_at_space is_flag_token_def)
next
  case False
  with assms have "token_at line p = line ! nat p # token_at line (p + 1)"
    by (simp add: token_at_step)
  with assms show ?thesis by (simp add: is_flag_token_def)
qed

lemma parseArgs_loop_located:
  assumes "0 \<le> p" and "p \<le> int (length line)"
      and "p < int (length line) \<longrightarrow> line ! nat p \<noteq> CHR ''-''"
  shows "\<exists>ts e. parseArgs_loop line args p = Some (args @ map arg_of ts, e)
           \<and> tokens_after line p = ts @ tokens_after line (e + 1)
           \<and> (\<forall>x\<in>set ts. is_arg x)"
  using assms
proof (induction line args p rule: parseArgs_loop.induct)
  case (1 line args p)
  let ?L = "int (length line)"
  show ?case
  proof (cases "p < ?L")
    case False
    with 1(4) have "p = ?L" by simp
    then have "parseArgs_loop line args p = Some (args @ map arg_of [], p)"
      by (subst parseArgs_loop.simps) simp
    moreover from \<open>p = ?L\<close> have "tokens_after line p = [] @ tokens_after line (p + 1)"
      by (simp add: tokens_after_outside)
    ultimately show ?thesis by (intro exI[of _ "[]"] exI[of _ p]) simp
  next
    case True
    let ?tok = "token_at line p"
    let ?arg = "\<lparr>start = p, end' = p + int (length ?tok), value' = string_of_bytes ?tok\<rparr>"
    let ?e = "end_at line p"
    let ?t0 = "if ?tok = [] then [] else [(p, ?tok)]"
    let ?args = "if length (value' ?arg) \<noteq> 0 then args @ [?arg] else args"
    have s: "parseSingleArg line p = Some (?arg, ?e)"
      using 1(3) True by (rule parseSingleArg_at)
    have args: "?args = args @ map arg_of ?t0"
      by (simp add: string_of_bytes_empty_iff arg_of_def)
    from True 1(5) have nd: "line ! nat p \<noteq> CHR ''-''" by simp
    have eb: "p \<le> ?e" "?e < ?L" "?e \<le> p + int (length ?tok)"
      using end_at_bounds[OF 1(3) True] by simp_all
    have tk: "tokens_after line p = ?t0 @ tokens_after line (?e + 1)"
      using 1(3) True by (rule tokens_after_step)
    have t0: "\<forall>x\<in>set ?t0. is_arg x"
      using tokens_after_arg[OF 1(3) True nd] by (simp add: is_arg_def)
    show ?thesis
    proof (cases "?e \<noteq> ?L - 1")
      case ne: True
      with eb 1(3) have b: "byte_at line (?e + 1) = Some (line ! nat (?e + 1))"
        by (simp add: byte_at_in_range)
      show ?thesis
      proof (cases "line ! nat (?e + 1) = CHR ''-''")
        case dash: True
        have "parseArgs_loop line args p = Some (args @ map arg_of ?t0, ?e)"
          using True s ne b dash args by (subst parseArgs_loop.simps) simp
        with tk t0 show ?thesis by blast
      next
        case nodash: False
        have pre: "0 \<le> ?e + 1" "?e + 1 \<le> ?L" "?e + 1 < ?L \<longrightarrow> line ! nat (?e + 1) \<noteq> CHR ''-''"
          using eb 1(3) nodash by simp_all
        from 1(1)[OF True s refl ne b nodash pre]
        obtain ts e where ih: "parseArgs_loop line ?args (?e + 1) = Some (?args @ map arg_of ts, e)"
            "tokens_after line (?e + 1) = ts @ tokens_after line (e + 1)"
            "\<forall>x\<in>set ts. is_arg x"
          by blast
        have "parseArgs_loop line args p = Some (args @ map arg_of (?t0 @ ts), e)"
          using True s ne b nodash ih(1) args by (subst parseArgs_loop.simps) simp
        moreover have "tokens_after line p = (?t0 @ ts) @ tokens_after line (e + 1)"
          using tk ih(2) by simp
        moreover have "\<forall>x\<in>set (?t0 @ ts). is_arg x" using t0 ih(3) by auto
        ultimately show ?thesis by blast
      qed
    next
      case eq: False
      have pre: "0 \<le> ?e + 1" "?e + 1 \<le> ?L" "?e + 1 < ?L \<longrightarrow> line ! nat (?e + 1) \<noteq> CHR ''-''"
        using eb 1(3) eq by simp_all
      from 1(2)[OF True s refl eq pre]
      obtain ts e where ih: "parseArgs_loop line ?args (?e + 1) = Some (?args @ map arg_of ts, e)"
          "tokens_after line (?e + 1) = ts @ tokens_after line (e + 1)"
          "\<forall>x\<in>set ts. is_arg x"
        by blast
      have "parseArgs_loop line args p = Some (args @ map arg_of (?t0 @ ts), e)"
        using True s eq ih(1) args by (subst parseArgs_loop.simps) simp
      moreover have "tokens_after line p = (?t0 @ ts) @ tokens_after line (e + 1)"
        using tk ih(2) by simp
      moreover have "\<forall>x\<in>set (?t0 @ ts). is_arg x" using t0 ih(3) by auto
      ultimately show ?thesis by blast
    qed
  qed
qed

lemma body_args_located:
  assumes "0 \<le> i" "i < int (length line)" "line ! nat i \<noteq> CHR ''-''"
  shows "\<exists>ts e. ParseLine_body line c st i = Some (args_step c st (map arg_of ts), e)
           \<and> i \<le> e \<and> e \<le> int (length line)
           \<and> (\<forall>a\<in>set (map arg_of ts). i \<le> start a \<and> start a < end' a \<and> end' a \<le> e \<and> value' a \<noteq> [])
           \<and> map value' (map arg_of ts) @ map string_of_bytes (arg_tokens (drop (nat (e + 1)) line))
               = map string_of_bytes (arg_tokens (drop (nat i) line))
           \<and> (e + 1 < int (length line) \<longrightarrow> line ! nat (e + 1) = CHR ''-'')
           \<and> tokens_after line i = ts @ tokens_after line (e + 1)
           \<and> (\<forall>x\<in>set ts. is_arg x)"
proof -
  from parseArgs_loop_props[of i line "[]"] assms
  obtain r e where r: "parseArgs line i = Some (r, e)" "i \<le> e" "e \<le> int (length line)"
     "\<forall>a\<in>set r. i \<le> start a \<and> start a < end' a \<and> end' a \<le> e \<and> value' a \<noteq> []"
     "map value' r @ map string_of_bytes (arg_tokens (drop (nat (e + 1)) line))
               = map string_of_bytes (arg_tokens (drop (nat i) line))"
     "e + 1 < int (length line) \<longrightarrow> line ! nat (e + 1) = CHR ''-''"
    unfolding parseArgs_def by auto
  from parseArgs_loop_located[of i line "[]"] assms obtain ts e' where
    l: "parseArgs line i = Some (map arg_of ts, e')"
       "tokens_after line i = ts @ tokens_after line (e' + 1)" "\<forall>x\<in>set ts. is_arg x"
    unfolding parseArgs_def by auto
  from r(1) l(1) have eq: "r = map arg_of ts" "e' = e" by simp_all
  have "ParseLine_body line c st i = Some (args_step c st (map arg_of ts), e)"
    using body_args_eq[OF assms, of c st] l(1) eq by simp
  with r(2-6) l(2,3) eq show ?thesis by blast
qed

text \<open>
  \<open>tokens_inv\<close>: when the loop is at offset \<open>i\<close>, the flags of the slice, the capturing
  flag with the argument run it is still to be given, and the flags of the tokens from
  \<open>i\<close> on are the flags of the line; and the top-level arguments, with the argument
  tokens from \<open>i\<close> on, are the argument tokens of the line.
\<close>

definition pending :: "string \<Rightarrow> scan \<Rightarrow> int \<Rightarrow> Flag list" where
  "pending line st i =
     (case capture st of
        None \<Rightarrow> []
      | Some p \<Rightarrow> [(vars st ! p)\<lparr>Args := Args (vars st ! p)
                       @ map arg_of (takeWhile is_arg (tokens_after line i))\<rparr>])"

definition tokens_inv :: "string \<Rightarrow> scan \<Rightarrow> int \<Rightarrow> bool" where
  "tokens_inv line st i \<longleftrightarrow>
     FlagsOrdered st @ pending line st i @ flags_of (int (length line)) (tokens_after line i)
       = flags_of (int (length line)) (located_tokens line)
     \<and> Arguments st @ map arg_of (filter is_arg (tokens_after line i))
       = map arg_of (filter is_arg (located_tokens line))"

lemma flags_of_args: "\<forall>x\<in>set ts. is_arg x \<Longrightarrow> flags_of L (ts @ ys) = flags_of L ys"
  by (induction ts) (simp_all add: is_arg_def)

lemma takeWhile_run:
  "\<forall>x\<in>set ts. is_arg x \<Longrightarrow> takeWhile is_arg ys = [] \<Longrightarrow> takeWhile is_arg (ts @ ys) = ts"
  by (induction ts) simp_all

lemma flag_at_flag_of: "flag_at line i = flag_of (i, token_at line i)"
  by (auto simp add: flag_at_def flag_of_def)

lemma tokens_after_no_run:
  assumes "0 \<le> q" and "q < int (length line) \<longrightarrow> line ! nat q = CHR ''-''"
  shows "takeWhile is_arg (tokens_after line q) = []"
proof (cases "q < int (length line)")
  case True
  with assms tokens_after_flag[of q line] show ?thesis by (simp add: is_arg_def)
next
  case False
  then show ?thesis by (simp add: tokens_after_outside)
qed

lemma initial_tokens_inv: "tokens_inv line (initial line) 0"
  by (simp add: tokens_inv_def initial_def pending_def tokens_after_0)

lemma flag_step_tokens_inv:
  assumes inv: "scan_inv line c st i" and t: "tokens_inv line st i"
      and lt: "i < int (length line)" and d: "line ! nat i = CHR ''-''"
  shows "tokens_inv line (flag_step line c st i) (end_at line i + 1)"
proof -
  let ?L = "int (length line)"
  let ?f = "flag_at line i"
  let ?rest = "tokens_after line (end_at line i + 1)"
  from inv have i0: "0 \<le> i" by (simp add: scan_inv_def)
  note ta = tokens_after_flag[OF i0 lt d]
  have pe: "pending line st i = (case capture st of None \<Rightarrow> [] | Some p \<Rightarrow> [vars st ! p])"
    by (simp add: pending_def ta is_arg_def split: option.splits)
  have fl: "FlagsOrdered (flushCapture st) = FlagsOrdered st @ pending line st i"
    by (simp add: pe flushCapture_def split: option.splits)
  have e: "(if i + int (length (token_at line i)) < ?L then i + int (length (token_at line i))
            else ?L - 1) = end_at line i"
    by (simp add: end_at_def)
  have fo: "flags_of ?L (tokens_after line i) =
              (if capturing ?f
               then [?f\<lparr>Args := map arg_of (takeWhile is_arg ?rest)\<rparr>]
               else map (bundled i (end_at line i)) (range_strings (value' ?f)))
              @ flags_of ?L ?rest"
    using ta(2) by (simp add: ta(1) flag_at_flag_of[symmetric] end_at_def)
  have ar: "filter is_arg (tokens_after line i) = filter is_arg ?rest"
    using ta(2) by (simp add: ta(1) is_arg_def)
  have p': "pending line (flag_step line c st i) (end_at line i + 1) =
              (if capturing ?f then [?f\<lparr>Args := map arg_of (takeWhile is_arg ?rest)\<rparr>] else [])"
    by (simp add: pending_def flag_step_fields capturing_def)
  have f': "FlagsOrdered (flag_step line c st i) =
              FlagsOrdered st @ pending line st i
              @ (if capturing ?f then [] else map (bundled i (end_at line i)) (range_strings (value' ?f)))"
    by (simp add: flag_step_fields fl capturing_def)
  from t have t1: "FlagsOrdered st @ pending line st i @ flags_of ?L (tokens_after line i)
                     = flags_of ?L (located_tokens line)"
    and t2: "Arguments st @ map arg_of (filter is_arg (tokens_after line i))
               = map arg_of (filter is_arg (located_tokens line))"
    by (simp_all add: tokens_inv_def)
  have "FlagsOrdered (flag_step line c st i) @ pending line (flag_step line c st i) (end_at line i + 1)
          @ flags_of ?L ?rest = flags_of ?L (located_tokens line)"
    unfolding p' f' using t1 by (cases "capturing ?f") (simp_all add: fo)
  moreover have "Arguments (flag_step line c st i) @ map arg_of (filter is_arg ?rest)
                   = map arg_of (filter is_arg (located_tokens line))"
    using t2 by (simp add: flag_step_fields ar)
  ultimately show ?thesis by (simp add: tokens_inv_def)
qed

lemma args_step_tokens_inv:
  assumes inv: "scan_inv line c st i" and t: "tokens_inv line st i" and r: "run_inv line st i"
      and lt: "i < int (length line)" and d: "line ! nat i \<noteq> CHR ''-''"
      and ie: "i \<le> e"
      and ta: "tokens_after line i = ts @ tokens_after line (e + 1)"
      and ts: "\<forall>x\<in>set ts. is_arg x"
      and nx: "e + 1 < int (length line) \<longrightarrow> line ! nat (e + 1) = CHR ''-''"
  shows "tokens_inv line (args_step c st (map arg_of ts)) (e + 1)"
proof -
  let ?L = "int (length line)"
  let ?rest = "tokens_after line (e + 1)"
  let ?st = "args_step c st (map arg_of ts)"
  from inv have i0: "0 \<le> i" and cp: "\<forall>p. capture st = Some p \<longrightarrow> p < length (vars st)"
    by (simp_all add: scan_inv_def)
  from i0 ie have e0: "0 \<le> e + 1" by simp
  have nr: "takeWhile is_arg ?rest = []"
    using e0 nx by (rule tokens_after_no_run)
  have run: "takeWhile is_arg (tokens_after line i) = ts"
    unfolding ta using ts nr by (rule takeWhile_run)
  from r lt d have em: "\<forall>p. capture st = Some p \<longrightarrow> Args (vars st ! p) = []"
    by (simp add: run_inv_def)
  have p: "pending line ?st (e + 1) = pending line st i"
    using em cp by (auto simp add: pending_def args_step_fields nr run split: option.splits)
  have fo: "flags_of ?L (tokens_after line i) = flags_of ?L ?rest"
    unfolding ta using ts by (rule flags_of_args)
  from t have t1: "FlagsOrdered st @ pending line st i @ flags_of ?L (tokens_after line i)
                     = flags_of ?L (located_tokens line)"
    and t2: "Arguments st @ map arg_of (filter is_arg (tokens_after line i))
               = map arg_of (filter is_arg (located_tokens line))"
    by (simp_all add: tokens_inv_def)
  have fa: "filter is_arg ts = ts" using ts by (simp add: filter_id_conv)
  have "FlagsOrdered ?st @ pending line ?st (e + 1) @ flags_of ?L ?rest
          = flags_of ?L (located_tokens line)"
    unfolding p using t1 by (simp add: args_step_fields fo)
  moreover have "Arguments ?st @ map arg_of (filter is_arg ?rest)
                   = map arg_of (filter is_arg (located_tokens line))"
    using t2 by (simp add: args_step_fields ta fa)
  ultimately show ?thesis by (simp add: tokens_inv_def)
qed

lemma tokens_inv_final:
  assumes "tokens_inv line st j" and "int (length line) \<le> j"
  shows "FlagsOrdered (flushCapture st) = flags_of (int (length line)) (located_tokens line)"
    and "Arguments st = map arg_of (filter is_arg (located_tokens line))"
  using assms
  by (simp_all add: tokens_inv_def tokens_after_outside pending_def flushCapture_def
        split: option.splits)

text \<open>All the invariants together.\<close>

definition parse_inv :: "string \<Rightarrow> int \<Rightarrow> scan \<Rightarrow> int \<Rightarrow> bool" where
  "parse_inv line c st i \<longleftrightarrow>
     scan_inv line c st i \<and> args_inv line st i \<and> order_inv st \<and> run_inv line st i
     \<and> owner_inv c st \<and> tokens_inv line st i"

lemma initial_parse_inv: "parse_inv line c (initial line) 0"
  by (simp add: parse_inv_def initial_inv initial_args_inv initial_tokens_inv)
     (simp add: order_inv_def run_inv_def owner_inv_def initial_def)

lemma body_parse_inv:
  assumes "parse_inv line c st i" and lt: "i < int (length line)"
  shows "\<exists>st' i'. ParseLine_body line c st i = Some (st', i') \<and> parse_inv line c st' (i' + 1)"
proof -
  from assms(1) have inv: "scan_inv line c st i" and a: "args_inv line st i"
    and o: "order_inv st" and t: "run_inv line st i" and w: "owner_inv c st"
    and k: "tokens_inv line st i"
    by (simp_all add: parse_inv_def)
  from inv have i0: "0 \<le> i" by (simp add: scan_inv_def)
  show ?thesis
  proof (cases "line ! nat i = CHR ''-''")
    case True
    have "parse_inv line c (flag_step line c st i) (end_at line i + 1)"
      unfolding parse_inv_def
      using flag_step_inv[OF inv lt] flag_step_args_inv[OF inv a lt True]
        flag_step_order_inv[OF inv o lt] flag_step_run_inv flag_step_owner_inv[OF inv w lt]
        flag_step_tokens_inv[OF inv k lt True]
      by blast
    with body_flag[OF i0 lt True] show ?thesis by blast
  next
    case False
    from body_args_located[OF i0 lt False, of c st] obtain ts e where
      l: "ParseLine_body line c st i = Some (args_step c st (map arg_of ts), e)"
         "i \<le> e" "e \<le> int (length line)"
         "\<forall>a\<in>set (map arg_of ts).
            i \<le> start a \<and> start a < end' a \<and> end' a \<le> e \<and> value' a \<noteq> []"
         "map value' (map arg_of ts) @ map string_of_bytes (arg_tokens (drop (nat (e + 1)) line))
               = map string_of_bytes (arg_tokens (drop (nat i) line))"
         "e + 1 < int (length line) \<longrightarrow> line ! nat (e + 1) = CHR ''-''"
         "tokens_after line i = ts @ tokens_after line (e + 1)"
         "\<forall>x\<in>set ts. is_arg x"
      by blast
    define r where "r = map arg_of ts"
    note b = l(1-6)[folded r_def]
    from b(4) have r1: "\<forall>a\<in>set r. i \<le> start a \<and> start a < end' a \<and> end' a \<le> e"
      and r2: "\<forall>a\<in>set r. i \<le> start a" by blast+
    have "parse_inv line c (args_step c st r) (e + 1)"
      unfolding parse_inv_def
      using args_step_inv[OF inv r1 b(2,3)] args_step_args_inv[OF inv a b(5)]
        args_step_order_inv[OF inv o] args_step_run_inv[OF b(6)]
        args_step_owner_inv[OF inv w t lt False r2]
        args_step_tokens_inv[OF inv k t lt False l(2,7,8,6), folded r_def]
      by blast
    with b(1) show ?thesis by blast
  qed
qed

lemma ParseLine_final_state:
  obtains st j where "ParseLine_loop line c (initial line) 0 = Some st"
    and "int (length line) \<le> j" and "parse_inv line c st j"
    and "ParseLine line c = Some (result (finish c st))"
proof -
  from ParseLine_loop_rule[where P = "parse_inv line c", OF initial_parse_inv body_parse_inv]
  obtain st j where
    l: "ParseLine_loop line c (initial line) 0 = Some st" "int (length line) \<le> j"
       "parse_inv line c st j"
    by blast
  from l(1) have "ParseLine line c = Some (result (finish c st))"
    by (simp add: ParseLine_finish)
  with l that show ?thesis by blast
qed

lemma top_level_finish:
  assumes "Command st = None"
  shows "top_level (result (finish c st)) = Arguments st"
  using assms by (cases "Arguments st") (simp_all add: top_level_def result_finish)

lemma conservation_example:
  "arg_tokens ''-l a b'' = [''a'', ''b'']"
  "map string_of_bytes [''a'', ''b''] = [''a'', ''b'']"
  "FlagsOrdered (the (ParseLine ''-l a b'' 0)) \<noteq> []"
  "Flags (the (ParseLine ''-l a b'' 0)) ''l'' \<noteq> None"
  by code_simp+







lemma conservation_tokens:
  "located_tokens ''-l a b'' = [(0, ''-l''), (3, ''a''), (5, ''b'')]"
  "map arg_of (filter is_arg [(0, ''-l''), (3, ''a''), (5, ''b'')])
     = [\<lparr>start = 3, end' = 4, value' = ''a''\<rparr>, \<lparr>start = 5, end' = 6, value' = ''b''\<rparr>]"
  "flags_of (int (length ''-l a b'')) [(0, ''-l''), (3, ''a''), (5, ''b'')]
     = [\<lparr>start = 0, end' = 2, value' = ''l'',
         Args = [\<lparr>start = 3, end' = 4, value' = ''a''\<rparr>, \<lparr>start = 5, end' = 6, value' = ''b''\<rparr>],
         long = False\<rparr>]"
  by code_simp+






section \<open>Properties\<close>

subsection \<open>The query API\<close>

text \<open>
  C6, as the claim states it, fails: \<open>GetArgString\<close> on a flag with two arguments does not
  fail, it returns the value of the first one. The line \<open>-x a b\<close> gives the flag \<open>x\<close> two
  arguments.
\<close>

theorem GetArgString_two_arguments:
  "length (Args (the (Flags (the (ParseLine ''-x a b'' 0)) ''x''))) = 2
   \<and> GetArgString (the (ParseLine ''-x a b'' 0)) ''x'' = Inr ''a''"
  by code_simp

text \<open>
  C6, amended: each of \<open>GetArgs\<close>, \<open>GetArgsString\<close>, \<open>ExpectArgs\<close>, \<open>GetArg\<close> and
  \<open>GetArgString\<close> returns \<open>ErrFlagNotSet\<close> exactly when the flag name is absent from
  \<open>Flags\<close>. On a present flag, \<open>ExpectArgs flag n\<close> fails, with the arity error, exactly
  when the number of arguments differs from \<open>n\<close>, and returns the arguments otherwise;
  \<open>GetArg\<close> fails, with the arity error for \<open>1\<close>, exactly when the flag does not have
  exactly one argument; \<open>GetArgString\<close> fails exactly when the flag has no argument, and
  otherwise returns the value of the first argument, however many there are.
\<close>

theorem query_api_errors:
  "(GetArgs pl flag = Inl ErrFlagNotSet \<longleftrightarrow> Flags pl flag = None)
   \<and> (GetArgsString pl flag = Inl ErrFlagNotSet \<longleftrightarrow> Flags pl flag = None)
   \<and> (ExpectArgs pl flag n = Inl ErrFlagNotSet \<longleftrightarrow> Flags pl flag = None)
   \<and> (GetArg pl flag = Inl ErrFlagNotSet \<longleftrightarrow> Flags pl flag = None)
   \<and> (GetArgString pl flag = Inl ErrFlagNotSet \<longleftrightarrow> Flags pl flag = None)
   \<and> (\<forall>f. Flags pl flag = Some f \<longrightarrow>
          ExpectArgs pl flag n =
            (if int (length (Args f)) \<noteq> n then Inl (ErrExpectsArgs flag n) else Inr (Args f))
          \<and> GetArg pl flag =
            (if length (Args f) \<noteq> 1 then Inl (ErrExpectsArgs flag 1) else Inr (hd (Args f)))
          \<and> GetArgString pl flag =
            (if length (Args f) = 0 then Inl (ErrExpectsAtLeastOne flag)
             else Inr (value' (hd (Args f)))))"
  by (cases "Flags pl flag")
     (auto simp add: GetArgs_def GetArgsString_def ExpectArgs_def GetArg_def GetArgString_def
           split: list.splits)

theorem query_api_errors_witness:
  "Flags \<lparr>FlagsOrdered = [], Flags = [''x'' \<mapsto> \<lparr>start = 0, end' = 2, value' = ''x'',
             Args = [\<lparr>start = 3, end' = 4, value' = ''a''\<rparr>, \<lparr>start = 5, end' = 6, value' = ''b''\<rparr>],
             long = False\<rparr>],
           Arguments = [], Focus = None :: Node option, Section = None :: Flag option,
           Command = None, RawLine = ''-x a b''\<rparr> ''x''
     = Some \<lparr>start = 0, end' = 2, value' = ''x'',
             Args = [\<lparr>start = 3, end' = 4, value' = ''a''\<rparr>, \<lparr>start = 5, end' = 6, value' = ''b''\<rparr>],
             long = False\<rparr>
   \<and> ExpectArgs \<lparr>FlagsOrdered = [], Flags = [''x'' \<mapsto> \<lparr>start = 0, end' = 2, value' = ''x'',
             Args = [\<lparr>start = 3, end' = 4, value' = ''a''\<rparr>, \<lparr>start = 5, end' = 6, value' = ''b''\<rparr>],
             long = False\<rparr>],
           Arguments = [], Focus = None :: Node option, Section = None :: Flag option,
           Command = None, RawLine = ''-x a b''\<rparr> ''x'' 3 = Inl (ErrExpectsArgs ''x'' 3)
   \<and> GetArg \<lparr>FlagsOrdered = [], Flags = [''x'' \<mapsto> \<lparr>start = 0, end' = 2, value' = ''x'',
             Args = [\<lparr>start = 3, end' = 4, value' = ''a''\<rparr>, \<lparr>start = 5, end' = 6, value' = ''b''\<rparr>],
             long = False\<rparr>],
           Arguments = [], Focus = None :: Node option, Section = None :: Flag option,
           Command = None, RawLine = ''-x a b''\<rparr> ''x'' = Inl (ErrExpectsArgs ''x'' 1)
   \<and> GetArgString \<lparr>FlagsOrdered = [], Flags = [''x'' \<mapsto> \<lparr>start = 0, end' = 2, value' = ''x'',
             Args = [\<lparr>start = 3, end' = 4, value' = ''a''\<rparr>, \<lparr>start = 5, end' = 6, value' = ''b''\<rparr>],
             long = False\<rparr>],
           Arguments = [], Focus = None :: Node option, Section = None :: Flag option,
           Command = None, RawLine = ''-x a b''\<rparr> ''x'' = Inr ''a''"
  using query_api_errors
    [of "\<lparr>FlagsOrdered = [], Flags = [''x'' \<mapsto> \<lparr>start = 0, end' = 2, value' = ''x'',
             Args = [\<lparr>start = 3, end' = 4, value' = ''a''\<rparr>, \<lparr>start = 5, end' = 6, value' = ''b''\<rparr>],
             long = False\<rparr>],
           Arguments = [], Focus = None :: Node option, Section = None :: Flag option,
           Command = None, RawLine = ''-x a b''\<rparr>" "''x''" 3]
  by simp

subsection \<open>The user registry\<close>

text \<open>
  C10: with a \<open>nil\<close> connection \<open>AddUser\<close> returns \<open>ErrNilServerConnection\<close> and no user,
  and the registry is as it was; with any other connection it returns no error and a
  user whose \<open>IdString\<close> is the id and whose \<open>ServerConnection\<close> is the connection, and the
  registry holds that user under the id (in place of what it held there) and is
  unchanged at every other id.
\<close>

theorem AddUser_atomic:
  "AddUser allUsers idStr None = ((None, Some ErrNilServerConnection), allUsers)
   \<and> (\<exists>us. AddUser allUsers idStr (Some conn) = ((Some us, None), allUsers(idStr \<mapsto> us))
            \<and> IdString us = idStr \<and> ServerConnection us = Some conn)"
  by (simp add: AddUser_def Let_def)

subsection \<open>Totality\<close>

text \<open>
  C4: for every line and every cursor position \<open>ParseLine\<close> returns a \<open>ParsedLine\<close>: no
  index expression leaves its range (the result is never \<open>None\<close>), and every loop of
  the model is a function proved to terminate. On the empty line the result has no
  arguments, no flags, no command and no focus.
\<close>

theorem ParseLine_total:
  "(\<exists>pl. ParseLine line cursorPosition = Some pl)
   \<and> (\<exists>pl. ParseLine [] cursorPosition = Some pl \<and> Arguments pl = [] \<and> FlagsOrdered pl = []
            \<and> Flags pl = Map.empty \<and> Command pl = None \<and> Focus pl = None)"
proof
  show "\<exists>pl. ParseLine line cursorPosition = Some pl"
    by (rule ParseLine_final[of line cursorPosition]) blast
  show "\<exists>pl. ParseLine [] cursorPosition = Some pl \<and> Arguments pl = [] \<and> FlagsOrdered pl = []
            \<and> Flags pl = Map.empty \<and> Command pl = None \<and> Focus pl = None"
    by (simp add: ParseLine_def ParseLine_loop.simps initial_def flushCapture_def
          resolveSection_def sectionWalk.simps promoteCommand_def result_def)
qed

subsection \<open>Spans\<close>

text \<open>
  C9, as the claim states it, fails: on the line \<open>a\<close> the command has \<open>end = 1\<close>, which is
  the length of the line and not below it. The scanners leave \<open>end\<close> one past the last
  byte of the token.
\<close>

theorem Command_end_is_length:
  "map_option end' (Command (the (ParseLine ''a'' 0))) = Some 1 \<and> int (length ''a'') = 1"
  by code_simp

text \<open>
  C9, amended: every node of a parse (the command, every flag of \<open>FlagsOrdered\<close> and of
  \<open>Flags\<close>, every top-level argument, every argument a flag owns, and the nodes
  \<open>Section\<close> and \<open>Focus\<close> point to) has \<open>0 \<le> start \<le> end \<le> len(line)\<close> and
  \<open>start < len(line)\<close>: \<open>start\<close> is an offset into the line, and \<open>end\<close> may be the length of
  the line.
\<close>

theorem spans_within_line:
  "\<exists>pl. ParseLine line cursorPosition = Some pl
     \<and> (\<forall>cmd. Command pl = Some cmd \<longrightarrow> span_within line cmd)
     \<and> (\<forall>f\<in>set (FlagsOrdered pl). flag_within line f)
     \<and> (\<forall>name f. Flags pl name = Some f \<longrightarrow> flag_within line f)
     \<and> (\<forall>a\<in>set (Arguments pl). span_within line a)
     \<and> (\<forall>f. Section pl = Some f \<longrightarrow> flag_within line f)
     \<and> (\<forall>n. Focus pl = Some n \<longrightarrow>
           0 \<le> Start n \<and> Start n < int (length line) \<and> Start n \<le> End n
           \<and> End n \<le> int (length line))"
proof (rule ParseLine_final[of line cursorPosition])
  fix st j
  assume inv: "scan_inv line cursorPosition st j"
     and p: "ParseLine line cursorPosition = Some (result (finish cursorPosition st))"
  note ok = final_nodes_ok[OF inv]
  show ?thesis
    using p ok(1) ok(2) ok(3) ok(4) ok(5) ok(6)
    by (intro exI[of _ "result (finish cursorPosition st)"])
       (auto intro: node_ok_span flag_ok_within)
qed

lemma spans_example:
  "Command (the (ParseLine ''a -l v'' 3)) \<noteq> None
   \<and> FlagsOrdered (the (ParseLine ''a -l v'' 3)) \<noteq> []
   \<and> Arguments (the (ParseLine ''a -l v'' 3)) \<noteq> []
   \<and> Flags (the (ParseLine ''a -l v'' 3)) ''l'' \<noteq> None
   \<and> Section (the (ParseLine ''a -l v'' 3)) \<noteq> None
   \<and> Focus (the (ParseLine ''a -l v'' 3)) \<noteq> None"
  by code_simp

theorem spans_within_line_witness:
  "span_within ''a -l v'' (the (Command (the (ParseLine ''a -l v'' 3))))
   \<and> flag_within ''a -l v'' (hd (FlagsOrdered (the (ParseLine ''a -l v'' 3))))
   \<and> flag_within ''a -l v'' (the (Flags (the (ParseLine ''a -l v'' 3)) ''l''))
   \<and> span_within ''a -l v'' (hd (Arguments (the (ParseLine ''a -l v'' 3))))
   \<and> flag_within ''a -l v'' (the (Section (the (ParseLine ''a -l v'' 3))))
   \<and> End (the (Focus (the (ParseLine ''a -l v'' 3)))) \<le> int (length ''a -l v'')"
proof -
  from spans_within_line[of "''a -l v''" 3] obtain pl where
    pl: "ParseLine ''a -l v'' 3 = Some pl"
        "\<forall>cmd. Command pl = Some cmd \<longrightarrow> span_within ''a -l v'' cmd"
        "\<forall>f\<in>set (FlagsOrdered pl). flag_within ''a -l v'' f"
        "\<forall>name f. Flags pl name = Some f \<longrightarrow> flag_within ''a -l v'' f"
        "\<forall>a\<in>set (Arguments pl). span_within ''a -l v'' a"
        "\<forall>f. Section pl = Some f \<longrightarrow> flag_within ''a -l v'' f"
        "\<forall>n. Focus pl = Some n \<longrightarrow> 0 \<le> Start n \<and> Start n < int (length ''a -l v'')
              \<and> Start n \<le> End n \<and> End n \<le> int (length ''a -l v'')"
    by blast
  from spans_example pl(1) have ne: "Command pl \<noteq> None" "FlagsOrdered pl \<noteq> []"
    "Arguments pl \<noteq> []" "Flags pl ''l'' \<noteq> None" "Section pl \<noteq> None" "Focus pl \<noteq> None"
    by simp_all
  from ne(1) pl(2) have "span_within ''a -l v'' (the (Command pl))" by auto
  moreover from ne(2) pl(3) have "flag_within ''a -l v'' (hd (FlagsOrdered pl))" by simp
  moreover from ne(4) pl(4) have "flag_within ''a -l v'' (the (Flags pl ''l''))" by auto
  moreover from ne(3) pl(5) have "span_within ''a -l v'' (hd (Arguments pl))" by simp
  moreover from ne(5) pl(6) have "flag_within ''a -l v'' (the (Section pl))" by auto
  moreover from ne(6) pl(7) have "End (the (Focus pl)) \<le> int (length ''a -l v'')" by auto
  ultimately show ?thesis using pl(1) by simp
qed

subsection \<open>The cursor outside the line\<close>

text \<open>
  C8, as the claim states it, fails: on the line \<open>a\<close> with the cursor at \<open>1\<close>, the length of
  the line, the focus is the command. A token that ends the line has \<open>end = len(line)\<close>,
  and the cursor of a line being typed stands there.
\<close>

theorem Focus_at_length:
  "int (length ''a'') \<le> 1
   \<and> Focus (the (ParseLine ''a'' 1)) = Some (CmdNode \<lparr>start = 0, end' = 1, value' = ''a''\<rparr>)"
  by code_simp

text \<open>
  C8, amended: if \<open>cursorPosition\<close> is negative or greater than the length of the line,
  the focus of the result is \<open>nil\<close>.
\<close>

theorem Focus_nil_outside_line:
  assumes "cursorPosition < 0 \<or> int (length line) < cursorPosition"
  shows "\<exists>pl. ParseLine line cursorPosition = Some pl \<and> Focus pl = None"
proof (rule ParseLine_final[of line cursorPosition])
  fix st j
  assume inv: "scan_inv line cursorPosition st j"
     and p: "ParseLine line cursorPosition = Some (result (finish cursorPosition st))"
  from final_nodes_ok(6)[OF inv] assms
  have "Focus (result (finish cursorPosition st)) = None"
    by (cases "Focus (result (finish cursorPosition st))") auto
  with p show ?thesis by blast
qed

theorem Focus_nil_outside_line_witness:
  "int (length ''a'') < 2 \<and> map_option Focus (ParseLine ''a'' 2) = Some None"
  using Focus_nil_outside_line[of 2 "''a''"] by auto

subsection \<open>Long flags\<close>

text \<open>
  C2, as the claim states it, fails: \<open>-ab\<close> has the dash-stripped value \<open>ab\<close>, longer than
  one character, and is not long; \<open>--\<close> begins with two dashes and is not long either.
  \<open>parseFlag\<close> sets \<open>long\<close> only at the first byte after the leading dashes, and only when
  that byte stands more than one place after the start. \<open>ParseLine\<close> takes a flag that is
  not long and has more than one character for a bundle of short options.
\<close>

theorem parseFlag_single_dash_not_long:
  "value' (fst (the (parseFlag ''-ab'' 0))) = ''ab'' \<and> long (fst (the (parseFlag ''-ab'' 0))) = False
   \<and> value' (fst (the (parseFlag ''--'' 0))) = [] \<and> long (fst (the (parseFlag ''--'' 0))) = False"
  by code_simp

text \<open>
  C2, amended: for every flag token scanned, the resulting flag has \<open>long = true\<close> exactly
  when the token begins with two or more dashes and at least one byte follows its
  leading dashes, that is, its dash-stripped value is not empty. So a run of characters
  after a single dash (\<open>-ab\<close>) gives \<open>long = false\<close>, whatever its length, and so does a
  token of dashes only.
\<close>

theorem parseFlag_long:
  assumes "0 \<le> startPos" and "startPos < int (length line)"
  shows "\<exists>f endPos. parseFlag line startPos = Some (f, endPos)
           \<and> (long f \<longleftrightarrow>
                 2 \<le> length (takeWhile (\<lambda>c. c = CHR ''-'') (token_at line startPos))
                 \<and> dropWhile (\<lambda>c. c = CHR ''-'') (token_at line startPos) \<noteq> [])
           \<and> (value' f = [] \<longleftrightarrow>
                 dropWhile (\<lambda>c. c = CHR ''-'') (token_at line startPos) = [])"
  using assms by (auto simp add: parseFlag_eq string_of_bytes_empty_iff)

theorem parseFlag_long_witness:
  "(0::int) \<le> 0 \<and> 0 < int (length ''--ab c'')
   \<and> map_option (\<lambda>(f, e). (long f, value' f = [])) (parseFlag ''--ab c'' 0) = Some (True, False)"
proof -
  have t: "token_at ''--ab c'' 0 = ''--ab''" by (simp add: token_at_def)
  from parseFlag_long[of 0 "''--ab c''"] show ?thesis
    by (auto simp add: t)
qed

subsection \<open>A single short flag\<close>




subsection \<open>Bundled short options\<close>

text \<open>
  C3, as the claim states it, fails: in the result for \<open>-aft value\<close> the list \<open>Arguments\<close>
  is empty. The token \<open>value\<close> is the first top-level argument, so it is promoted to
  \<open>Command\<close> and removed from \<open>Arguments\<close>.
\<close>

theorem bundle_value_is_command:
  "Arguments (the (ParseLine ''-aft value'' 0)) = []
   \<and> Command (the (ParseLine ''-aft value'' 0)) = Some \<lparr>start = 5, end' = 10, value' = ''value''\<rparr>"
  by code_simp

text \<open>
  C3, amended: for the line \<open>-aft value\<close> and every cursor position, the parse has exactly
  the three flags \<open>a\<close>, \<open>f\<close> and \<open>t\<close>, with the same \<open>start\<close> and \<open>end\<close> and no arguments;
  the token \<open>value\<close> is attached to no flag and is the \<open>Command\<close> of the result, and
  \<open>Arguments\<close> is empty.
\<close>

theorem bundled_short_options:
  "\<exists>pl. ParseLine ''-aft value'' cursorPosition = Some pl
     \<and> FlagsOrdered pl = [\<lparr>start = 0, end' = 4, value' = ''a'', Args = [], long = False\<rparr>,
                          \<lparr>start = 0, end' = 4, value' = ''f'', Args = [], long = False\<rparr>,
                          \<lparr>start = 0, end' = 4, value' = ''t'', Args = [], long = False\<rparr>]
     \<and> Flags pl ''a'' = Some \<lparr>start = 0, end' = 4, value' = ''a'', Args = [], long = False\<rparr>
     \<and> Flags pl ''f'' = Some \<lparr>start = 0, end' = 4, value' = ''f'', Args = [], long = False\<rparr>
     \<and> Flags pl ''t'' = Some \<lparr>start = 0, end' = 4, value' = ''t'', Args = [], long = False\<rparr>
     \<and> dom (Flags pl) = {''a'', ''f'', ''t''}
     \<and> Command pl = Some \<lparr>start = 5, end' = 10, value' = ''value''\<rparr>
     \<and> Arguments pl = []"
proof (rule ParseLine_final[of "''-aft value''" cursorPosition])
  fix st j
  let ?pl = "result (finish cursorPosition st)"
  assume inv: "scan_inv ''-aft value'' cursorPosition st j"
     and p: "ParseLine ''-aft value'' cursorPosition = Some ?pl"
  from ParseLine_cursor_independent(1)[of "''-aft value''" cursorPosition 0] p bundle_at_0(1)
  have fo: "FlagsOrdered ?pl = [\<lparr>start = 0, end' = 4, value' = ''a'', Args = [], long = False\<rparr>,
                          \<lparr>start = 0, end' = 4, value' = ''f'', Args = [], long = False\<rparr>,
                          \<lparr>start = 0, end' = 4, value' = ''t'', Args = [], long = False\<rparr>]"
    by simp
  from ParseLine_cursor_independent(2)[of "''-aft value''" cursorPosition 0] p
  have "map_option (\<lambda>pl. (Flags pl ''a'', Flags pl ''f'', Flags pl ''t'')) (ParseLine ''-aft value'' 0)
          = Some (Flags ?pl ''a'', Flags ?pl ''f'', Flags ?pl ''t'')"
    by (cases "ParseLine ''-aft value'' 0") auto
  with bundle_at_0(2)
  have fl: "Flags ?pl ''a'' = Some \<lparr>start = 0, end' = 4, value' = ''a'', Args = [], long = False\<rparr>"
           "Flags ?pl ''f'' = Some \<lparr>start = 0, end' = 4, value' = ''f'', Args = [], long = False\<rparr>"
           "Flags ?pl ''t'' = Some \<lparr>start = 0, end' = 4, value' = ''t'', Args = [], long = False\<rparr>"
    by simp_all
  have "\<forall>n f. Flags ?pl n = Some f \<longrightarrow> n = ''a'' \<or> n = ''f'' \<or> n = ''t''"
  proof (intro allI impI)
    fix n f assume "Flags ?pl n = Some f"
    with final_nodes_ok(2)[OF inv] have "f \<in> set (FlagsOrdered ?pl)" "value' f = n"
      by blast+
    with fo show "n = ''a'' \<or> n = ''f'' \<or> n = ''t''" by auto
  qed
  with fl have d: "dom (Flags ?pl) = {''a'', ''f'', ''t''}" by (auto simp add: dom_def)
  from ParseLine_cursor_independent(4)[of "''-aft value''" cursorPosition 0] p bundle_at_0(3)
  have c: "Command ?pl = Some \<lparr>start = 5, end' = 10, value' = ''value''\<rparr>" by simp
  from ParseLine_cursor_independent(3)[of "''-aft value''" cursorPosition 0] p bundle_at_0(4)
  have a: "Arguments ?pl = []" by simp
  from p fo fl d c a show ?thesis by blast
qed

subsection \<open>Token conservation\<close>

text \<open>
  C1, as the claim states it, fails: on the line \<open>-l a b\<close>, with the three tokens \<open>-l\<close>, \<open>a\<close>
  and \<open>b\<close>, the flag \<open>l\<close> owns \<open>a\<close> and \<open>b\<close>, and yet \<open>a\<close> is the command and \<open>b\<close> is still
  a top-level argument: the count of the specification is \<open>4\<close>. \<open>ParseLine\<close> appends
  every argument run to \<open>pl.Arguments\<close>, whether a flag captures it or not.
\<close>

theorem owned_argument_counted_twice:
  "tokens ''-l a b'' = [''-l'', ''a'', ''b'']
   \<and> accounted (the (ParseLine ''-l a b'' 0)) = 4
   \<and> map value' (Arguments (the (ParseLine ''-l a b'' 0))) = [''b'']
   \<and> map ArgValues (FlagsOrdered (the (ParseLine ''-l a b'' 0))) = [[''a'', ''b'']]"
  by code_simp

text \<open>
  C1, amended: the tokens of the line that do not begin with \<open>-\<close> are, in order and each
  exactly once, the top-level nodes of the parse: the first is the command, the others
  are \<open>Arguments\<close>. The node of a token starts at the offset of the token and ends one
  past its last byte, and its value is the token, each byte \<open>b\<close> written as \<open>string(b)\<close>
  (the byte itself below \<open>0x80\<close>). The tokens that begin with \<open>-\<close> are scanned as flags
  and are not among the top-level nodes; \<open>FlagsOrdered\<close> holds, in the order of the
  line, for a flag token that is long or has a value of one byte, one capturing flag,
  whose \<open>Args\<close> are exactly the nodes of the argument tokens that follow it up to the
  next flag token or the end of the line, and for any other flag token one flag without
  arguments for each code point of its value. The arguments of a flag are a run of the
  top-level list (the command followed by \<open>Arguments\<close>), all of it after the flag: a
  captured run is recorded with the flag and also stays at top level, so that no
  argument token is dropped and a token owned by a flag is there twice. Every flag of
  the map \<open>Flags\<close> is a flag of \<open>FlagsOrdered\<close>.
\<close>

theorem token_conservation:
  "\<exists>pl. ParseLine line cursorPosition = Some pl
     \<and> Command pl = (case map arg_of (filter is_arg (located_tokens line)) of
                       [] \<Rightarrow> None | a # _ \<Rightarrow> Some a)
     \<and> Arguments pl = tl (map arg_of (filter is_arg (located_tokens line)))
     \<and> FlagsOrdered pl = flags_of (int (length line)) (located_tokens line)
     \<and> (\<forall>f\<in>set (FlagsOrdered pl). sublist (Args f) (top_level pl))
     \<and> (\<forall>f\<in>set (FlagsOrdered pl). \<forall>a\<in>set (Args f). end' f < start a)
     \<and> (\<forall>name f. Flags pl name = Some f \<longrightarrow> f \<in> set (FlagsOrdered pl))"
proof (rule ParseLine_final_state[of line cursorPosition])
  fix st j
  let ?pl = "result (finish cursorPosition st)"
  assume j: "int (length line) \<le> j" and pinv: "parse_inv line cursorPosition st j"
     and p: "ParseLine line cursorPosition = Some ?pl"
  from pinv have inv: "scan_inv line cursorPosition st j" and a: "args_inv line st j"
    and k: "tokens_inv line st j"
    by (simp_all add: parse_inv_def)
  from inv have cn: "Command st = None" by (simp add: scan_inv_def)
  note tl = top_level_finish[OF cn, of cursorPosition]
  note fin = tokens_inv_final[OF k j]
  have c: "Command ?pl = (case map arg_of (filter is_arg (located_tokens line)) of
                            [] \<Rightarrow> None | a # _ \<Rightarrow> Some a)"
    by (simp only: result_finish(4)[OF cn] fin(2))
  have g: "Arguments ?pl = tl (map arg_of (filter is_arg (located_tokens line)))"
    by (simp only: result_finish(3)[OF cn] fin(2))
  have o: "FlagsOrdered ?pl = flags_of (int (length line)) (located_tokens line)"
    by (simp only: result_finish(1)[OF cn] fin(1))
  have "set (FlagsOrdered (flushCapture st)) \<subseteq> set (vars st) \<union> set (FlagsOrdered st)"
    using scan_inv_pointers(1)[OF inv]
    by (auto simp add: flushCapture_FlagsOrdered split: option.splits)
  with a have s: "\<forall>f\<in>set (FlagsOrdered ?pl). sublist (Args f) (top_level ?pl)"
    by (auto simp add: args_inv_def tl result_finish(1)[OF cn])
  from final_nodes_ok(1)[OF inv]
  have f: "\<forall>f\<in>set (FlagsOrdered ?pl). \<forall>a\<in>set (Args f). end' f < start a"
    by (simp add: flag_ok_def)
  from final_nodes_ok(2)[OF inv]
  have m: "\<forall>name f. Flags ?pl name = Some f \<longrightarrow> f \<in> set (FlagsOrdered ?pl)" by blast
  from p c g o s f m show ?thesis by blast
qed

theorem token_conservation_witness:
  "Command (the (ParseLine ''-l a b'' 0)) = Some \<lparr>start = 3, end' = 4, value' = ''a''\<rparr>
   \<and> Arguments (the (ParseLine ''-l a b'' 0)) = [\<lparr>start = 5, end' = 6, value' = ''b''\<rparr>]
   \<and> FlagsOrdered (the (ParseLine ''-l a b'' 0))
       = [\<lparr>start = 0, end' = 2, value' = ''l'',
           Args = [\<lparr>start = 3, end' = 4, value' = ''a''\<rparr>, \<lparr>start = 5, end' = 6, value' = ''b''\<rparr>],
           long = False\<rparr>]
   \<and> sublist (Args (hd (FlagsOrdered (the (ParseLine ''-l a b'' 0)))))
              (top_level (the (ParseLine ''-l a b'' 0)))
   \<and> list_all (\<lambda>a. end' (hd (FlagsOrdered (the (ParseLine ''-l a b'' 0)))) < start a)
                (Args (hd (FlagsOrdered (the (ParseLine ''-l a b'' 0)))))
   \<and> the (Flags (the (ParseLine ''-l a b'' 0)) ''l'')
       \<in> set (FlagsOrdered (the (ParseLine ''-l a b'' 0)))"
proof -
  from token_conservation[of "''-l a b''" 0] obtain pl where
    pl: "ParseLine ''-l a b'' 0 = Some pl"
        "Command pl = (case map arg_of (filter is_arg (located_tokens ''-l a b'')) of
                         [] \<Rightarrow> None | a # _ \<Rightarrow> Some a)"
        "Arguments pl = tl (map arg_of (filter is_arg (located_tokens ''-l a b'')))"
        "FlagsOrdered pl = flags_of (int (length ''-l a b'')) (located_tokens ''-l a b'')"
        "\<forall>f\<in>set (FlagsOrdered pl). sublist (Args f) (top_level pl)"
        "\<forall>name f. Flags pl name = Some f \<longrightarrow> f \<in> set (FlagsOrdered pl)"
        "\<forall>f\<in>set (FlagsOrdered pl). \<forall>a\<in>set (Args f). end' f < start a"
    by blast
  from conservation_example(3,4) pl(1) have ne: "FlagsOrdered pl \<noteq> []" "Flags pl ''l'' \<noteq> None"
    by simp_all
  from pl(2) have "Command pl = Some \<lparr>start = 3, end' = 4, value' = ''a''\<rparr>"
    unfolding conservation_tokens by simp
  moreover from pl(3) have "Arguments pl = [\<lparr>start = 5, end' = 6, value' = ''b''\<rparr>]"
    unfolding conservation_tokens by simp
  moreover from pl(4) have "FlagsOrdered pl
       = [\<lparr>start = 0, end' = 2, value' = ''l'',
           Args = [\<lparr>start = 3, end' = 4, value' = ''a''\<rparr>, \<lparr>start = 5, end' = 6, value' = ''b''\<rparr>],
           long = False\<rparr>]"
    unfolding conservation_tokens by simp
  moreover from ne(1) pl(5) have "sublist (Args (hd (FlagsOrdered pl))) (top_level pl)" by simp
  moreover from ne(2) pl(6) have "the (Flags pl ''l'') \<in> set (FlagsOrdered pl)" by auto
  moreover from ne(1) pl(7)
  have "list_all (\<lambda>a. end' (hd (FlagsOrdered pl)) < start a) (Args (hd (FlagsOrdered pl)))"
    by (simp add: list_all_iff)
  ultimately show ?thesis using pl(1) by simp
qed

subsection \<open>Section resolution\<close>




end
